theory Spec2Isabelle
  imports Complex_Main "HOL-Library.Word" "HOL-Library.List_Lexorder" "HOL-Library.AList" "HOL-Library.Sublist"
begin

section \<open>JavaScript strings and values\<close>

text \<open>
  A JavaScript string is a sequence of UTF-16 code units.  The default comparison of
  \<^verbatim>\<open>Array.prototype.sort\<close> orders strings lexicographically by code unit, a proper
  prefix first; this is the order \<open>\<le>\<close> of lists of 16-bit words.
\<close>

type_synonym jschar = "16 word"
type_synonym jsstring = "jschar list"

definition str :: "string \<Rightarrow> jsstring" where
  "str s = map (\<lambda>c. of_nat (of_char c)) s"

text \<open>
  The code points of a string (\<^verbatim>\<open>StringToCodePoints\<close>): a high surrogate followed by a
  low surrogate is one code point, any other code unit is a code point of its own.
\<close>

definition is_high_surrogate :: "jschar \<Rightarrow> bool" where
  "is_high_surrogate c \<longleftrightarrow> 0xD800 \<le> c \<and> c \<le> 0xDBFF"

definition is_low_surrogate :: "jschar \<Rightarrow> bool" where
  "is_low_surrogate c \<longleftrightarrow> 0xDC00 \<le> c \<and> c \<le> 0xDFFF"

fun StringToCodePoints :: "jsstring \<Rightarrow> int list" where
  "StringToCodePoints [] = []"
| "StringToCodePoints [c] = [uint c]"
| "StringToCodePoints (c # d # cs) =
     (if is_high_surrogate c \<and> is_low_surrogate d
      then (0x10000 + (uint c - 0xD800) * 0x400 + (uint d - 0xDC00)) # StringToCodePoints cs
      else uint c # StringToCodePoints (d # cs))"

text \<open>
  The values \<^verbatim>\<open>JSON.parse\<close> returns, which are all that \<^verbatim>\<open>jsonData\<close> ever holds.
  \<open>'n\<close> is the host's Number type.  An object is the list of its own properties in the
  order \<^verbatim>\<open>Object.keys\<close> lists them; an array is dense.  \<^verbatim>\<open>JSON.parse\<close> builds a tree, so no
  two places of a document share an object, and a place is named by the keys leading to it.
\<close>

datatype 'n jsvalue =
    JNull
  | JBool bool
  | JNumber 'n
  | JString jsstring
  | JArray "'n jsvalue list"
  | JObject "(jsstring \<times> 'n jsvalue) list"

text \<open>
  The conversions between numbers and text belong to the host, not to the plugin; they are
  parameters of the model.
\<close>

record 'n host =
  NumberToString :: "'n \<Rightarrow> jsstring"
  StringToNumber :: "jsstring \<Rightarrow> 'n"
  isFinite :: "'n \<Rightarrow> bool"

fun typeof :: "'n jsvalue \<Rightarrow> string" where
  "typeof JNull = ''object''"
| "typeof (JBool b) = ''boolean''"
| "typeof (JNumber n) = ''number''"
| "typeof (JString s) = ''string''"
| "typeof (JArray xs) = ''object''"
| "typeof (JObject kvs) = ''object''"

text \<open>\<^verbatim>\<open>ToString\<close> of an array index: decimal digits, no leading zero.\<close>

fun ToString_nat :: "nat \<Rightarrow> jsstring" where
  "ToString_nat n =
     (if n < 10 then [of_nat (48 + n)]
      else ToString_nat (n div 10) @ [of_nat (48 + n mod 10)])"

declare ToString_nat.simps [simp del]

fun join :: "jsstring \<Rightarrow> jsstring list \<Rightarrow> jsstring" where
  "join sep [] = []"
| "join sep [s] = s"
| "join sep (s # t # ss) = s @ sep @ join sep (t # ss)"

text \<open>
  \<^verbatim>\<open>String(value)\<close>.  An array is its elements joined by commas, with \<^verbatim>\<open>null\<close> elements
  empty; a plain object is \<^verbatim>\<open>[object Object]\<close>.
\<close>

fun js_String :: "'n host \<Rightarrow> 'n jsvalue \<Rightarrow> jsstring" where
  "js_String h JNull = str ''null''"
| "js_String h (JBool b) = (if b then str ''true'' else str ''false'')"
| "js_String h (JNumber n) = NumberToString h n"
| "js_String h (JString s) = s"
| "js_String h (JArray xs) =
     join (str '','') (map (\<lambda>x. if x = JNull then [] else js_String h x) xs)"
| "js_String h (JObject kvs) = str ''[object Object]''"

text \<open>
  \<^verbatim>\<open>Object.keys(data)\<close>, \<^verbatim>\<open>data[key]\<close> and \<^verbatim>\<open>data[key] = v\<close> on the values \<open>createFields\<close>
  receives, which are arrays and objects only (lines 144 and 159 test for it).
  A value that is neither has no own property here.  \<open>set_prop\<close> is \<open>None\<close> when \<open>key\<close> is
  not an own property: the closures of \<open>createFields\<close> never reach that case, their key
  being one of \<^verbatim>\<open>Object.keys(data)\<close> and no property ever being removed.
\<close>

fun Object_keys :: "'n jsvalue \<Rightarrow> jsstring list" where
  "Object_keys (JObject kvs) = map fst kvs"
| "Object_keys (JArray xs) = map ToString_nat [0..<length xs]"
| "Object_keys _ = []"

fun Object_entries :: "'n jsvalue \<Rightarrow> (jsstring \<times> 'n jsvalue) list" where
  "Object_entries (JObject kvs) = kvs"
| "Object_entries (JArray xs) = zip (map ToString_nat [0..<length xs]) xs"
| "Object_entries _ = []"

definition get_prop :: "'n jsvalue \<Rightarrow> jsstring \<Rightarrow> 'n jsvalue option" where
  "get_prop data key = map_of (Object_entries data) key"

fun set_prop :: "'n jsvalue \<Rightarrow> jsstring \<Rightarrow> 'n jsvalue \<Rightarrow> 'n jsvalue option" where
  "set_prop (JObject kvs) key v =
     (if key \<in> set (map fst kvs) then Some (JObject (AList.update key v kvs)) else None)"
| "set_prop (JArray xs) key v =
     (if key \<in> set (map ToString_nat [0..<length xs])
      then Some (JArray (map snd
             (AList.update key v (zip (map ToString_nat [0..<length xs]) xs))))
      else None)"
| "set_prop _ key v = None"

section \<open>JSON text\<close>

text \<open>
  \<^verbatim>\<open>JSON.stringify(value, null, 2)\<close> and \<^verbatim>\<open>JSON.parse(text)\<close>, the two calls the plugin
  makes on the text of a file.  Code units are written by their numbers: 0x22 is the
  double quote, 0x5C the backslash, 0x0A the line feed, 0x20 the space, 0x2C the comma,
  0x3A the colon, 0x5B and 0x5D the brackets, 0x7B and 0x7D the braces, 0x2D the minus
  sign, 0x2E the full stop, 0x30 to 0x39 the digits.
\<close>

definition is_digit :: "jschar \<Rightarrow> bool" where
  "is_digit c \<longleftrightarrow> 48 \<le> c \<and> c \<le> 57"

definition int_of_digits :: "jsstring \<Rightarrow> int" where
  "int_of_digits ds = foldl (\<lambda>a c. 10 * a + (uint c - 48)) 0 ds"


definition is_ws :: "jschar \<Rightarrow> bool" where
  "is_ws c \<longleftrightarrow> c = 0x20 \<or> c = 0x09 \<or> c = 0x0A \<or> c = 0x0D"

definition skip_ws :: "jsstring \<Rightarrow> jsstring" where
  "skip_ws cs = dropWhile is_ws cs"

text \<open>
  \<^verbatim>\<open>QuoteJSONString\<close>: the string between double quotes, with the two-character escapes,
  \<^verbatim>\<open>\u\<close> escapes for the other control characters and for lone surrogates, and every
  other code point as it is.
\<close>

definition hex_digit :: "int \<Rightarrow> jschar" where
  "hex_digit d = (if d < 10 then word_of_int (48 + d) else word_of_int (87 + d))"

definition UnicodeEscape :: "jschar \<Rightarrow> jsstring" where
  "UnicodeEscape c =
     [0x5C, 0x75, hex_digit (uint c div 4096 mod 16), hex_digit (uint c div 256 mod 16),
      hex_digit (uint c div 16 mod 16), hex_digit (uint c mod 16)]"

definition json_escape :: "jschar \<Rightarrow> jsstring" where
  "json_escape c =
     (if c = 0x08 then [0x5C, 0x62]
      else if c = 0x09 then [0x5C, 0x74]
      else if c = 0x0A then [0x5C, 0x6E]
      else if c = 0x0C then [0x5C, 0x66]
      else if c = 0x0D then [0x5C, 0x72]
      else if c = 0x22 then [0x5C, 0x22]
      else if c = 0x5C then [0x5C, 0x5C]
      else if c < 0x20 \<or> is_high_surrogate c \<or> is_low_surrogate c then UnicodeEscape c
      else [c])"

fun quote_chars :: "jsstring \<Rightarrow> jsstring" where
  "quote_chars [] = []"
| "quote_chars [c] = json_escape c"
| "quote_chars (c # d # cs) =
     (if is_high_surrogate c \<and> is_low_surrogate d then c # d # quote_chars cs
      else json_escape c @ quote_chars (d # cs))"

definition QuoteJSONString :: "jsstring \<Rightarrow> jsstring" where
  "QuoteJSONString s = 0x22 # quote_chars s @ [0x22]"

text \<open>
  \<^verbatim>\<open>SerializeJSONProperty\<close> with the gap of two spaces; \<open>ind\<close> is the current indent.  A
  number that is not finite is serialized as \<^verbatim>\<open>null\<close>.
\<close>

fun SerializeJSONProperty :: "'n host \<Rightarrow> jsstring \<Rightarrow> 'n jsvalue \<Rightarrow> jsstring" where
  "SerializeJSONProperty h ind JNull = str ''null''"
| "SerializeJSONProperty h ind (JBool b) = (if b then str ''true'' else str ''false'')"
| "SerializeJSONProperty h ind (JNumber n) =
     (if isFinite h n then NumberToString h n else str ''null'')"
| "SerializeJSONProperty h ind (JString s) = QuoteJSONString s"
| "SerializeJSONProperty h ind (JArray xs) =
     (if xs = [] then str ''[]''
      else [0x5B, 0x0A] @ (ind @ str ''  '')
           @ join ([0x2C, 0x0A] @ (ind @ str ''  ''))
               (map (SerializeJSONProperty h (ind @ str ''  '')) xs)
           @ [0x0A] @ ind @ [0x5D])"
| "SerializeJSONProperty h ind (JObject kvs) =
     (if kvs = [] then str ''{}''
      else [0x7B, 0x0A] @ (ind @ str ''  '')
           @ join ([0x2C, 0x0A] @ (ind @ str ''  ''))
               (map (\<lambda>kv. QuoteJSONString (fst kv) @ str '': ''
                      @ SerializeJSONProperty h (ind @ str ''  '') (snd kv)) kvs)
           @ [0x0A] @ ind @ [0x7D])"

definition JSON_stringify :: "'n host \<Rightarrow> 'n jsvalue \<Rightarrow> jsstring" where
  "JSON_stringify h v = SerializeJSONProperty h [] v"

text \<open>
  Reading: the characters of a string after its opening quote, up to the closing one;
  a number literal by the JSON grammar (integer part, fraction, exponent).
\<close>

definition hex_value :: "jschar \<Rightarrow> int option" where
  "hex_value c =
     (if 0x30 \<le> c \<and> c \<le> 0x39 then Some (uint c - 0x30)
      else if 0x61 \<le> c \<and> c \<le> 0x66 then Some (uint c - 0x57)
      else if 0x41 \<le> c \<and> c \<le> 0x46 then Some (uint c - 0x37)
      else None)"

definition unescape :: "jschar \<Rightarrow> jschar option" where
  "unescape e =
     (if e = 0x22 then Some 0x22
      else if e = 0x5C then Some 0x5C
      else if e = 0x2F then Some 0x2F
      else if e = 0x62 then Some 0x08
      else if e = 0x66 then Some 0x0C
      else if e = 0x6E then Some 0x0A
      else if e = 0x72 then Some 0x0D
      else if e = 0x74 then Some 0x09
      else None)"

definition hex4 :: "jschar \<Rightarrow> jschar \<Rightarrow> jschar \<Rightarrow> jschar \<Rightarrow> jschar option" where
  "hex4 a b c d =
     (case (hex_value a, hex_value b, hex_value c, hex_value d) of
        (Some x3, Some x2, Some x1, Some x0) \<Rightarrow>
          Some (word_of_int (4096 * x3 + 256 * x2 + 16 * x1 + x0))
      | _ \<Rightarrow> None)"

definition cons_result :: "jschar \<Rightarrow> (jsstring \<times> jsstring) option \<Rightarrow> (jsstring \<times> jsstring) option" where
  "cons_result c r = map_option (\<lambda>(s, rest). (c # s, rest)) r"

fun parse_string_chars :: "jsstring \<Rightarrow> (jsstring \<times> jsstring) option" where
  "parse_string_chars [] = None"
| "parse_string_chars (c # cs) =
     (if c = 0x22 then Some ([], cs)
      else if c = 0x5C then
        (case cs of
           [] \<Rightarrow> None
         | e # cs' \<Rightarrow>
             if e = 0x75 then
               (if length cs' < 4 then None
                else
                  (case hex4 (cs' ! 0) (cs' ! 1) (cs' ! 2) (cs' ! 3) of
                     None \<Rightarrow> None
                   | Some u \<Rightarrow> cons_result u (parse_string_chars (drop 4 cs'))))
             else
               (case unescape e of
                  None \<Rightarrow> None
                | Some x \<Rightarrow> cons_result x (parse_string_chars cs')))
      else if c < 0x20 then None
      else cons_result c (parse_string_chars cs))"

definition scan_fraction :: "jsstring \<Rightarrow> (jsstring \<times> jsstring) option" where
  "scan_fraction cs =
     (case cs of
        [] \<Rightarrow> Some ([], [])
      | c # r \<Rightarrow>
          if c = 0x2E then
            (if takeWhile is_digit r = [] then None
             else Some (c # takeWhile is_digit r, dropWhile is_digit r))
          else Some ([], cs))"

definition scan_exponent :: "jsstring \<Rightarrow> (jsstring \<times> jsstring) option" where
  "scan_exponent cs =
     (case cs of
        [] \<Rightarrow> Some ([], [])
      | c # r \<Rightarrow>
          if c = 0x65 \<or> c = 0x45 then
            (let sg = (if take 1 r = [0x2B] \<or> take 1 r = [0x2D] then take 1 r else []);
                 r' = drop (length sg) r
             in if takeWhile is_digit r' = [] then None
                else Some (c # sg @ takeWhile is_digit r', dropWhile is_digit r'))
          else Some ([], cs))"

definition scan_int :: "jsstring \<Rightarrow> (jsstring \<times> jsstring) option" where
  "scan_int cs =
     (case cs of
        [] \<Rightarrow> None
      | d # r \<Rightarrow>
          if \<not> is_digit d then None
          else if d = 0x30 then Some ([d], r)
          else Some (d # takeWhile is_digit r, dropWhile is_digit r))"

definition scan_unsigned :: "jsstring \<Rightarrow> (jsstring \<times> jsstring) option" where
  "scan_unsigned cs =
     (case scan_int cs of
        None \<Rightarrow> None
      | Some (ip, r2) \<Rightarrow>
          (case scan_fraction r2 of
             None \<Rightarrow> None
           | Some (fr, r3) \<Rightarrow>
               (case scan_exponent r3 of
                  None \<Rightarrow> None
                | Some (ex, r4) \<Rightarrow> Some (ip @ fr @ ex, r4))))"

definition scan_number :: "jsstring \<Rightarrow> (jsstring \<times> jsstring) option" where
  "scan_number cs =
     (case cs of
        [] \<Rightarrow> None
      | c # r \<Rightarrow>
          if c = 0x2D then map_option (\<lambda>(tok, r'). (c # tok, r')) (scan_unsigned r)
          else scan_unsigned cs)"

text \<open>
  \<^verbatim>\<open>JSON.parse\<close> adds each member to the object with \<^verbatim>\<open>CreateDataProperty\<close>: a key
  already there keeps its place and takes the new value; a new key that is an array index
  (the canonical decimal text of an integer below \<open>2\<^sup>3\<^sup>2 - 1\<close>) goes among the array
  indices in ascending order; any other new key goes last.
\<close>

definition array_index :: "jsstring \<Rightarrow> int option" where
  "array_index k =
     (if k \<noteq> [] \<and> list_all is_digit k \<and> (k = [0x30] \<or> hd k \<noteq> 0x30) \<and> length k \<le> 10
         \<and> int_of_digits k < 4294967295
      then Some (int_of_digits k) else None)"

fun insert_index :: "int \<Rightarrow> jsstring \<Rightarrow> 'v \<Rightarrow> (jsstring \<times> 'v) list \<Rightarrow> (jsstring \<times> 'v) list" where
  "insert_index i k v [] = [(k, v)]"
| "insert_index i k v (kv # kvs) =
     (case array_index (fst kv) of
        None \<Rightarrow> (k, v) # kv # kvs
      | Some j \<Rightarrow> if j \<le> i then kv # insert_index i k v kvs else (k, v) # kv # kvs)"

definition define_prop :: "jsstring \<Rightarrow> 'v \<Rightarrow> (jsstring \<times> 'v) list \<Rightarrow> (jsstring \<times> 'v) list" where
  "define_prop k v kvs =
     (if k \<in> set (map fst kvs) then AList.update k v kvs
      else case array_index k of
             None \<Rightarrow> kvs @ [(k, v)]
           | Some i \<Rightarrow> insert_index i k v kvs)"

text \<open>
  The order \<^verbatim>\<open>Object.keys\<close> lists the properties of an object in: array indices first,
  ascending, then the other keys as they were created.
\<close>

fun key_order_ok :: "jsstring list \<Rightarrow> bool" where
  "key_order_ok (k1 # k2 # ks) =
     ((case array_index k2 of
         None \<Rightarrow> True
       | Some j \<Rightarrow> (case array_index k1 of None \<Rightarrow> False | Some i \<Rightarrow> i \<le> j))
      \<and> key_order_ok (k2 # ks))"
| "key_order_ok ks = True"

fun wf_value :: "'n jsvalue \<Rightarrow> bool" where
  "wf_value (JArray xs) = list_all wf_value xs"
| "wf_value (JObject kvs) =
     (distinct (map fst kvs) \<and> key_order_ok (map fst kvs)
      \<and> list_all (\<lambda>kv. wf_value (snd kv)) kvs)"
| "wf_value v = True"

text \<open>
  A number survives serialization when it is finite, its text is a JSON number literal, and
  that literal reads back as the same number.
\<close>

definition num_ok :: "'n host \<Rightarrow> 'n \<Rightarrow> bool" where
  "num_ok h n \<longleftrightarrow>
     isFinite h n \<and> scan_number (NumberToString h n) = Some (NumberToString h n, [])
     \<and> StringToNumber h (NumberToString h n) = n"

fun numbers_ok :: "'n host \<Rightarrow> 'n jsvalue \<Rightarrow> bool" where
  "numbers_ok h (JNumber n) = num_ok h n"
| "numbers_ok h (JArray xs) = list_all (numbers_ok h) xs"
| "numbers_ok h (JObject kvs) = list_all (\<lambda>kv. numbers_ok h (snd kv)) kvs"
| "numbers_ok h v = True"

text \<open>
  What \<^verbatim>\<open>JSON.parse\<close> reads from the text \<^verbatim>\<open>JSON.stringify\<close> writes for a value: a number
  that is not finite was written as \<^verbatim>\<open>null\<close>, and a finite one is read from its own text.
  \<open>text_ok\<close> holds of a finite number when its text is a JSON number literal denoting a
  finite number with the same text.
\<close>

fun reloaded :: "'n host \<Rightarrow> 'n jsvalue \<Rightarrow> 'n jsvalue" where
  "reloaded h (JNumber n) =
     (if isFinite h n then JNumber (StringToNumber h (NumberToString h n)) else JNull)"
| "reloaded h (JArray xs) = JArray (map (reloaded h) xs)"
| "reloaded h (JObject kvs) = JObject (map (\<lambda>kv. (fst kv, reloaded h (snd kv))) kvs)"
| "reloaded h v = v"

definition text_ok :: "'n host \<Rightarrow> 'n \<Rightarrow> bool" where
  "text_ok h n \<longleftrightarrow>
     (isFinite h n \<longrightarrow>
        num_ok h (StringToNumber h (NumberToString h n)) \<and>
        NumberToString h (StringToNumber h (NumberToString h n)) = NumberToString h n)"

fun texts_ok :: "'n host \<Rightarrow> 'n jsvalue \<Rightarrow> bool" where
  "texts_ok h (JNumber n) = text_ok h n"
| "texts_ok h (JArray xs) = list_all (texts_ok h) xs"
| "texts_ok h (JObject kvs) = list_all (\<lambda>kv. texts_ok h (snd kv)) kvs"
| "texts_ok h v = True"

text \<open>\<open>all_numbers P v\<close>: every number in \<open>v\<close> satisfies \<open>P\<close>.\<close>

fun all_numbers :: "('n \<Rightarrow> bool) \<Rightarrow> 'n jsvalue \<Rightarrow> bool" where
  "all_numbers P (JNumber n) = P n"
| "all_numbers P (JArray xs) = list_all (all_numbers P) xs"
| "all_numbers P (JObject kvs) = list_all (\<lambda>kv. all_numbers P (snd kv)) kvs"
| "all_numbers P v = True"

text \<open>A string, a number or one of the three literals, at the head of \<open>cs\<close>.\<close>

definition parse_scalar :: "'n host \<Rightarrow> jsstring \<Rightarrow> ('n jsvalue \<times> jsstring) option" where
  "parse_scalar h cs =
     (case cs of
        [] \<Rightarrow> None
      | c # r \<Rightarrow>
          if c = 0x22 then
            map_option (\<lambda>(s, r'). (JString s, r')) (parse_string_chars r)
          else if c = 0x2D \<or> is_digit c then
            map_option (\<lambda>(tok, r'). (JNumber (StringToNumber h tok), r')) (scan_number cs)
          else if take 4 cs = str ''true'' then Some (JBool True, drop 4 cs)
          else if take 5 cs = str ''false'' then Some (JBool False, drop 5 cs)
          else if take 4 cs = str ''null'' then Some (JNull, drop 4 cs)
          else None)"

text \<open>
  The recursive descent over values, array elements and object members.  The first
  argument after the host bounds the depth of calls; \<open>JSON_parse\<close> gives it twice the
  length of the text, which is never exhausted (\<open>parse_value_fuel\<close> below).
\<close>

fun parse_value :: "'n host \<Rightarrow> nat \<Rightarrow> jsstring \<Rightarrow> ('n jsvalue \<times> jsstring) option"
and parse_elements :: "'n host \<Rightarrow> nat \<Rightarrow> 'n jsvalue list \<Rightarrow> jsstring \<Rightarrow> ('n jsvalue \<times> jsstring) option"
and parse_members :: "'n host \<Rightarrow> nat \<Rightarrow> (jsstring \<times> 'n jsvalue) list \<Rightarrow> jsstring \<Rightarrow> ('n jsvalue \<times> jsstring) option"
where
  "parse_value h 0 cs = None"
| "parse_value h (Suc n) cs =
     (case skip_ws cs of
        [] \<Rightarrow> None
      | c # r \<Rightarrow>
          if c = 0x7B then
            (if take 1 (skip_ws r) = [0x7D] then Some (JObject [], drop 1 (skip_ws r))
             else parse_members h n [] r)
          else if c = 0x5B then
            (if take 1 (skip_ws r) = [0x5D] then Some (JArray [], drop 1 (skip_ws r))
             else parse_elements h n [] r)
          else parse_scalar h (c # r))"
| "parse_elements h 0 acc cs = None"
| "parse_elements h (Suc n) acc cs =
     (case parse_value h n cs of
        None \<Rightarrow> None
      | Some (v, r) \<Rightarrow>
          (case skip_ws r of
             [] \<Rightarrow> None
           | c # r' \<Rightarrow>
               if c = 0x2C then parse_elements h n (acc @ [v]) r'
               else if c = 0x5D then Some (JArray (acc @ [v]), r')
               else None))"
| "parse_members h 0 acc cs = None"
| "parse_members h (Suc n) acc cs =
     (case skip_ws cs of
        [] \<Rightarrow> None
      | q # r \<Rightarrow>
          if q \<noteq> 0x22 then None
          else
            (case parse_string_chars r of
               None \<Rightarrow> None
             | Some (k, r1) \<Rightarrow>
                 (case skip_ws r1 of
                    [] \<Rightarrow> None
                  | c # r2 \<Rightarrow>
                      if c \<noteq> 0x3A then None
                      else
                        (case parse_value h n r2 of
                           None \<Rightarrow> None
                         | Some (v, r3) \<Rightarrow>
                             (case skip_ws r3 of
                                [] \<Rightarrow> None
                              | c' # r4 \<Rightarrow>
                                  if c' = 0x2C then parse_members h n (define_prop k v acc) r4
                                  else if c' = 0x7D then Some (JObject (define_prop k v acc), r4)
                                  else None)))))"

definition JSON_parse :: "'n host \<Rightarrow> jsstring \<Rightarrow> 'n jsvalue option" where
  "JSON_parse h text =
     (case parse_value h (2 * length text) text of
        None \<Rightarrow> None
      | Some (v, r) \<Rightarrow> if skip_ws r = [] then Some v else None)"


section \<open>The view\<close>

text \<open>
  What \<open>displayEditor\<close> puts into \<^verbatim>\<open>contentEl\<close>: a button; a \<^verbatim>\<open>details\<close> element with its
  \<^verbatim>\<open>summary\<close> text and children; a \<^verbatim>\<open>Setting\<close> with its name, the value of its text
  field and the \<^verbatim>\<open>onChange\<close> closure.  The closure holds \<^verbatim>\<open>data\<close> and \<^verbatim>\<open>key\<close>; the
  model names \<^verbatim>\<open>data\<close> by the keys leading to it from the root, so the closure is the
  path to the property it assigns.
\<close>

datatype element =
    Button string
  | Details jsstring "element list"
  | SettingText jsstring jsstring "jsstring list"

record 'n view =
  jsonData :: "'n jsvalue"
  filePath :: jsstring
  contentEl :: "element list"
  notices :: "string list"

definition new_view :: "'n view" where
  "new_view = \<lparr>jsonData = JNull, filePath = [], contentEl = [], notices = []\<rparr>"

lemma get_prop_size: "get_prop data key = Some v \<Longrightarrow> size v < size data"
proof (cases data)
  case (JArray xs)
  assume "get_prop data key = Some v"
  with JArray have "v \<in> set xs"
    by (auto simp: get_prop_def dest!: map_of_SomeD set_zip_rightD)
  then have "size v \<le> size_list size xs"
    by (simp add: size_list_estimation')
  with JArray show ?thesis by simp
next
  case (JObject kvs)
  assume "get_prop data key = Some v"
  with JObject have "(key, v) \<in> set kvs"
    by (auto simp: get_prop_def dest: map_of_SomeD)
  then have "size_prod (\<lambda>_. 0) size (key, v) \<le> size_list (size_prod (\<lambda>_. 0) size) kvs"
    by (rule size_list_estimation') simp
  with JObject show ?thesis by simp
qed (simp_all add: get_prop_def)

text \<open>
  \<open>createFields\<close> (lines 135 to 156).  \<open>p\<close> is the path of \<open>data\<close>; the element list is
  what the call appends to \<^verbatim>\<open>parentEl\<close>.  A key whose value were \<^verbatim>\<open>undefined\<close> would get
  a text field showing \<^verbatim>\<open>undefined\<close>.
\<close>

function (domintros) createFields ::
  "'n host \<Rightarrow> jsstring list \<Rightarrow> 'n jsvalue \<Rightarrow> element list" where
  "createFields h p data =
     concat (map (\<lambda>key.
       (case get_prop data key of
          None \<Rightarrow> [SettingText key (str ''undefined'') (p @ [key])]
        | Some v \<Rightarrow>
            if typeof v = ''object'' \<and> v \<noteq> JNull
            then [Details key (createFields h (p @ [key]) v)]
            else [SettingText key (js_String h v) (p @ [key])]))
       (sort (Object_keys data)))"
  by pat_completeness auto

lemma createFields_dom_all: "createFields_dom (h, p, data)"
proof (induction "size data" arbitrary: p data rule: less_induct)
  case less
  show ?case
    by (rule createFields.domintros) (auto dest: get_prop_size intro: less)
qed

termination createFields
  using createFields_dom_all by auto

declare createFields.simps [simp del]






text \<open>
  The \<^verbatim>\<open>onChange\<close> closure of a text field (lines 150 to 152) runs
  \<^verbatim>\<open>data[key] = newValue\<close> on the object it captured.  \<open>get_path\<close> follows a path from
  the root; \<open>assign_path\<close> is the assignment the closure with that path performs, seen
  from the root.  Nothing else happens in the closure: no notice, no new rendering.
\<close>

fun get_path :: "jsstring list \<Rightarrow> 'n jsvalue \<Rightarrow> 'n jsvalue option" where
  "get_path [] d = Some d"
| "get_path (k # p) d =
     (case get_prop d k of None \<Rightarrow> None | Some c \<Rightarrow> get_path p c)"

fun assign_path :: "jsstring list \<Rightarrow> 'n jsvalue \<Rightarrow> 'n jsvalue \<Rightarrow> 'n jsvalue option" where
  "assign_path [] v d = None"
| "assign_path [k] v d = set_prop d k v"
| "assign_path (k # p) v d =
     (case get_prop d k of
        None \<Rightarrow> None
      | Some c \<Rightarrow>
          (case assign_path p v c of None \<Rightarrow> None | Some c' \<Rightarrow> set_prop d k c'))"

definition onChange :: "jsstring list \<Rightarrow> jsstring \<Rightarrow> 'n view \<Rightarrow> 'n view option" where
  "onChange p newValue v =
     map_option (\<lambda>d. v\<lparr>jsonData := d\<rparr>) (assign_path p (JString newValue) (jsonData v))"

text \<open>
  \<open>displayEditor\<close> up to the creation of the save button (lines 130 to 169).  The test
  \<^verbatim>\<open>this.jsonData && typeof this.jsonData === "object"\<close> holds for the values whose
  \<^verbatim>\<open>typeof\<close> is \<^verbatim>\<open>object\<close> and which are truthy, and \<^verbatim>\<open>null\<close> is the only falsy one among
  them.
\<close>

definition displayEditor :: "'n host \<Rightarrow> 'n view \<Rightarrow> 'n view" where
  "displayEditor h v =
     (if jsonData v \<noteq> JNull \<and> typeof (jsonData v) = ''object''
      then v\<lparr>contentEl := createFields h [] (jsonData v) @ [Button ''Save Changes''],
             notices := notices v @ [''JSON data displayed successfully!'']\<rparr>
      else v\<lparr>contentEl := [Button ''Save Changes''],
             notices := notices v @ [''No valid JSON data to display.'']\<rparr>)"

text \<open>
  \<open>onOpen\<close> (lines 92 to 128) adds the button; its click handler, given what the file
  picker does, is \<open>fileButton_onclick\<close>.  The picker is missing, or its promise rejects
  (the user cancels), or it yields file handles, each taken as the file's name and text.
  The name is stored before the text is parsed.
\<close>

definition onOpen :: "'n view \<Rightarrow> 'n view" where
  "onOpen v = v\<lparr>contentEl := contentEl v @ [Button ''Open JSON File'']\<rparr>"

datatype open_event = NoFilePicker | PickerRejected | Picked "(jsstring \<times> jsstring) list"

fun fileButton_onclick :: "'n host \<Rightarrow> open_event \<Rightarrow> 'n view \<Rightarrow> 'n view" where
  "fileButton_onclick h NoFilePicker v =
     v\<lparr>notices := notices v @ [''File picker not supported in this browser.'']\<rparr>"
| "fileButton_onclick h PickerRejected v = v"
| "fileButton_onclick h (Picked []) v = v"
| "fileButton_onclick h (Picked ((name, fileContent) # fs)) v =
     (case JSON_parse h fileContent of
        Some d \<Rightarrow>
          displayEditor h
            (v\<lparr>jsonData := d, filePath := name,
               notices := notices v @ [''File loaded successfully!'']\<rparr>)
      | None \<Rightarrow> v\<lparr>filePath := name, notices := notices v @ [''Invalid JSON file.'']\<rparr>)"

text \<open>
  The click handler of the save button (lines 170 to 218), given what the user and the
  save picker do.  When the file is written, the result holds the name suggested to the
  picker and the text written.
\<close>

datatype save_event = Declined | NoSavePicker | SaveFailed | Saved

fun saveButton_onclick ::
  "'n host \<Rightarrow> save_event \<Rightarrow> 'n view \<Rightarrow> 'n view \<times> (jsstring \<times> jsstring) option" where
  "saveButton_onclick h Declined v = (v, None)"
| "saveButton_onclick h NoSavePicker v =
     (v\<lparr>notices := notices v @ [''Save file picker not supported in this browser.'']\<rparr>, None)"
| "saveButton_onclick h SaveFailed v =
     (v\<lparr>notices := notices v @ [''Failed to save the file.'']\<rparr>, None)"
| "saveButton_onclick h Saved v =
     (v\<lparr>notices := notices v @ [''File saved successfully!'']\<rparr>,
      Some (filePath v, JSON_stringify h (jsonData v)))"

text \<open>Reading the display: the label of an element, and the text fields below it.\<close>

fun label :: "element \<Rightarrow> jsstring" where
  "label (Button t) = str t"
| "label (Details k cs) = k"
| "label (SettingText k t p) = k"

fun text_fields :: "element \<Rightarrow> (jsstring list \<times> jsstring) list" where
  "text_fields (Button t) = []"
| "text_fields (Details k cs) = concat (map text_fields cs)"
| "text_fields (SettingText k t p) = [(p, t)]"

fun group :: "jsstring \<Rightarrow> element list \<Rightarrow> element list option" where
  "group k [] = None"
| "group k (Details k' cs # es) = (if k' = k then Some cs else group k es)"
| "group k (e # es) = group k es"

fun children_at :: "jsstring list \<Rightarrow> element list \<Rightarrow> element list option" where
  "children_at [] es = Some es"
| "children_at (k # q) es =
     (case group k es of None \<Rightarrow> None | Some cs \<Rightarrow> children_at q cs)"

definition all_fields :: "element list \<Rightarrow> (jsstring list \<times> jsstring) list" where
  "all_fields es = concat (map text_fields es)"

fun is_leaf :: "'n jsvalue \<Rightarrow> bool" where
  "is_leaf (JArray xs) = False"
| "is_leaf (JObject kvs) = False"
| "is_leaf _ = True"

section \<open>The host's numbers\<close>

text \<open>
  The plugin runs on a host whose numbers are IEEE 754 binary64 values.  \<open>Finite s m e\<close>
  is \<open>(-1)\<^sup>s \<times> m \<times> 2\<^sup>e\<close> with \<open>m < 2\<^sup>5\<^sup>3\<close>, \<open>-1074 \<le> e \<le> 971\<close>, and \<open>2\<^sup>5\<^sup>2 \<le> m\<close> unless
  \<open>e = -1074\<close>; the zeros are \<open>Finite s 0 (-1074)\<close>.  \<^verbatim>\<open>JSON.parse\<close> never yields NaN.
  This instance of the host is used to run the model on concrete documents; the general
  theorems hold for every host.
\<close>

datatype double = Finite bool int int | Infinite bool

function bitlen :: "int \<Rightarrow> int" where
  "bitlen n = (if n \<le> 0 then 0 else 1 + bitlen (n div 2))"
  by pat_completeness auto
termination
  by (relation "measure nat") auto

declare bitlen.simps [simp del]

function declen :: "int \<Rightarrow> int" where
  "declen n = (if n \<le> 0 then 0 else 1 + declen (n div 10))"
  by pat_completeness auto
termination
  by (relation "measure nat") auto

declare declen.simps [simp del]

definition pow :: "int \<Rightarrow> int \<Rightarrow> int" where
  "pow b x = b ^ nat x"

text \<open>\<open>floor_log2 a b\<close> is the \<open>t\<close> with \<open>2\<^sup>t \<le> a / b < 2\<^sup>t\<^sup>+\<^sup>1\<close>, for positive \<open>a\<close> and \<open>b\<close>.\<close>

definition floor_log2 :: "int \<Rightarrow> int \<Rightarrow> int" where
  "floor_log2 a b =
     (let t = bitlen a - bitlen b
      in if (if 0 \<le> t then b * pow 2 t \<le> a else b \<le> a * pow 2 (- t)) then t else t - 1)"

definition round_half_even :: "int \<Rightarrow> int \<Rightarrow> int" where
  "round_half_even n d =
     (let q = n div d; r = n mod d
      in if 2 * r < d then q else if d < 2 * r then q + 1 else if even q then q else q + 1)"

text \<open>The binary64 value nearest to \<open>a / b\<close>, ties to even, overflowing to infinity.\<close>

definition to_double :: "bool \<Rightarrow> int \<Rightarrow> int \<Rightarrow> double" where
  "to_double s a b =
     (if a = 0 then Finite s 0 (- 1074)
      else
        let e = max (floor_log2 a b - 52) (- 1074);
            m = (if 0 \<le> e then round_half_even a (b * pow 2 e)
                 else round_half_even (a * pow 2 (- e)) b)
        in if m = pow 2 53
           then (if 971 < e + 1 then Infinite s else Finite s (pow 2 52) (e + 1))
           else (if 971 < e then Infinite s else Finite s m e))"

definition scale10 :: "bool \<Rightarrow> int \<Rightarrow> int \<Rightarrow> double" where
  "scale10 s d x = (if 0 \<le> x then to_double s (d * pow 10 x) 1 else to_double s d (pow 10 (- x)))"

text \<open>The value of a JSON number literal: sign, digits, fraction, exponent.\<close>

definition ieee_StringToNumber :: "jsstring \<Rightarrow> double" where
  "ieee_StringToNumber tok =
     (let neg = (take 1 tok = str ''-'');
          r = (if neg then tl tok else tok);
          ip = takeWhile is_digit r;
          r1 = dropWhile is_digit r;
          dot = (take 1 r1 = str ''.'');
          fp = (if dot then takeWhile is_digit (tl r1) else []);
          r2 = (if dot then dropWhile is_digit (tl r1) else r1);
          r3 = tl r2;
          eneg = (take 1 r3 = str ''-'');
          ed = (if eneg \<or> take 1 r3 = str ''+'' then tl r3 else r3);
          ex = (if eneg then - int_of_digits ed else int_of_digits ed)
      in scale10 neg (int_of_digits (ip @ fp)) (ex - int (length fp)))"

text \<open>
  \<^verbatim>\<open>Number::toString\<close>: the fewest digits \<open>s\<close> (\<open>k\<close> of them) and the \<open>n\<close> with
  \<open>s \<times> 10\<^sup>n\<^sup>-\<^sup>k\<close> rounding to the number, the closest such \<open>s\<close>; then the layout by \<open>n\<close>
  and \<open>k\<close>.  \<open>dec_exponent a b\<close> is the \<open>n\<close> with \<open>10\<^sup>n\<^sup>-\<^sup>1 \<le> a / b < 10\<^sup>n\<close>.  The search
  for \<open>k\<close> starts at one digit and ends at the latest at \<open>kmax\<close>, the number of digits of
  the exact decimal expansion of the number, which denotes the number itself.
\<close>

definition dec_exponent :: "int \<Rightarrow> int \<Rightarrow> int" where
  "dec_exponent a b =
     (if b \<le> a then declen (a div b)
      else let j = declen b - declen a
           in if b \<le> a * pow 10 j then 1 - j else - j)"

definition scaled_div :: "int \<Rightarrow> int \<Rightarrow> int \<Rightarrow> int \<times> int" where
  "scaled_div a b x = (if 0 \<le> x then (a * pow 10 x, b) else (a, b * pow 10 (- x)))"

definition candidate :: "double \<Rightarrow> int \<Rightarrow> int \<Rightarrow> int \<Rightarrow> int \<Rightarrow> int option" where
  "candidate x a b n k =
     (let (num, den) = scaled_div a b (k - n);
          lo = num div den;
          ok_lo = (scale10 False lo (n - k) = x);
          ok_hi = (scale10 False (lo + 1) (n - k) = x)
      in if ok_lo \<and> ok_hi then Some (round_half_even num den)
         else if ok_lo then Some lo
         else if ok_hi then Some (lo + 1)
         else None)"

function shortest :: "double \<Rightarrow> int \<Rightarrow> int \<Rightarrow> int \<Rightarrow> int \<Rightarrow> int \<Rightarrow> int \<times> int" where
  "shortest x a b n kmax k =
     (case candidate x a b n k of
        Some s \<Rightarrow> (s, k)
      | None \<Rightarrow>
          if k < kmax then shortest x a b n kmax (k + 1)
          else let (num, den) = scaled_div a b (k - n) in (num div den, k))"
  by pat_completeness auto
termination
  by (relation "measure (\<lambda>(x, a, b, n, kmax, k). nat (kmax - k))") auto

declare shortest.simps [simp del]

function ToString_int :: "int \<Rightarrow> jsstring" where
  "ToString_int n =
     (if n < 10 then [word_of_int (48 + n)]
      else ToString_int (n div 10) @ [word_of_int (48 + n mod 10)])"
  by pat_completeness auto
termination
  by (relation "measure nat") auto

declare ToString_int.simps [simp del]

definition format_digits :: "int \<Rightarrow> int \<Rightarrow> int \<Rightarrow> jsstring" where
  "format_digits s k n =
     (let ds = ToString_int s
      in if k \<le> n \<and> n \<le> 21 then ds @ replicate (nat (n - k)) 48
         else if 0 < n \<and> n \<le> 21 then take (nat n) ds @ str ''.'' @ drop (nat n) ds
         else if - 6 < n \<and> n \<le> 0 then str ''0.'' @ replicate (nat (- n)) 48 @ ds
         else (if k = 1 then ds else take 1 ds @ str ''.'' @ drop 1 ds) @ str ''e''
              @ (if n - 1 < 0 then str ''-'' else str ''+'') @ ToString_int (abs (n - 1)))"

definition ieee_NumberToString :: "double \<Rightarrow> jsstring" where
  "ieee_NumberToString x =
     (case x of
        Infinite s \<Rightarrow> (if s then str ''-Infinity'' else str ''Infinity'')
      | Finite s m e \<Rightarrow>
          if m = 0 then str ''0''
          else
            let a = (if 0 \<le> e then m * pow 2 e else m);
                b = (if 0 \<le> e then 1 else pow 2 (- e));
                n = dec_exponent a b;
                (d, k) = shortest (Finite False m e) a b n (n - min e 0) 1
            in (if s then str ''-'' else [])
               @ (if d = pow 10 k then format_digits (pow 10 (k - 1)) k (n + 1)
                  else format_digits d k n))"

definition ieee_isFinite :: "double \<Rightarrow> bool" where
  "ieee_isFinite x = (case x of Finite s m e \<Rightarrow> True | Infinite s \<Rightarrow> False)"

definition ieee :: "double host" where
  "ieee = \<lparr>NumberToString = ieee_NumberToString, StringToNumber = ieee_StringToNumber,
            isFinite = ieee_isFinite\<rparr>"

definition double_of_int :: "int \<Rightarrow> double" where
  "double_of_int i = to_double (i < 0) (abs i) 1"

text \<open>
  What is read back from the text \<^verbatim>\<open>JSON.stringify\<close> writes on this host: the same value,
  except that a number that is not finite has become null and negative zero has become
  zero.
\<close>

fun after_save :: "double jsvalue \<Rightarrow> double jsvalue" where
  "after_save (JNumber (Infinite s)) = JNull"
| "after_save (JNumber (Finite s m e)) = JNumber (Finite (s \<and> m \<noteq> 0) m e)"
| "after_save (JArray xs) = JArray (map after_save xs)"
| "after_save (JObject kvs) = JObject (map (\<lambda>kv. (fst kv, after_save (snd kv))) kvs)"
| "after_save v = v"

section \<open>Example documents\<close>

text \<open>
  \<open>scenario_A\<close> is what \<^verbatim>\<open>JSON.parse\<close> returns for \<^verbatim>\<open>{"b":1,"a":{"c":true}}\<close> and
  \<open>scenario_B\<close> for \<^verbatim>\<open>{"list":[10,2,33]}\<close>;
  \<open>leaves_doc\<close> has one leaf of each kind; \<open>eleven\<close> is an array of eleven elements;
  \<open>astral_doc\<close> has the keys U+FF5E and U+1F600, the second a surrogate pair.
\<close>

definition scenario_A :: "double jsvalue" where
  "scenario_A =
     JObject [(str ''b'', JNumber (double_of_int 1)),
              (str ''a'', JObject [(str ''c'', JBool True)])]"

definition leaves_doc :: "double jsvalue" where
  "leaves_doc =
     JObject [(str ''n'', JNumber (double_of_int 42)), (str ''t'', JBool True),
              (str ''s'', JString (str ''hello'')), (str ''z'', JNull)]"

definition scenario_B :: "double jsvalue" where
  "scenario_B =
     JObject [(str ''list'', JArray [JNumber (double_of_int 10), JNumber (double_of_int 2),
                                      JNumber (double_of_int 33)])]"

definition eleven :: "double jsvalue" where
  "eleven = JArray (map (\<lambda>i. JNumber (double_of_int (int i))) [0..<11])"

definition astral_doc :: "double jsvalue" where
  "astral_doc = JObject [([0xFF5E], JNull), ([0xD83D, 0xDE00], JNull)]"

text \<open>The text \<^verbatim>\<open>{"b":1,"a":{"c":true}}\<close>.\<close>

definition text_A :: jsstring where
  \<open>text_A = str ''{"b":1,"a":{"c":true}}''\<close>


definition view_of :: "double jsvalue \<Rightarrow> double view" where
  "view_of d = displayEditor ieee (new_view\<lparr>jsonData := d\<rparr>)"

section \<open>Properties of the value operations and of the rendering\<close>

lemma object_test: "(typeof v = ''object'' \<and> v \<noteq> JNull) \<longleftrightarrow> \<not> is_leaf v"
  by (cases v) simp_all

lemma map_label_concat:
  "(\<And>x. x \<in> set xs \<Longrightarrow> map label (f x) = [x]) \<Longrightarrow> map label (concat (map f xs)) = xs"
  by (induction xs) auto

lemma labels_createFields: "map label (createFields h p data) = sort (Object_keys data)"
  unfolding createFields.simps [of h p data]
  by (rule map_label_concat) (simp split: option.splits)

lemma map_of_map_value:
  "map_of (map (\<lambda>(k, x). (k, f k x)) kvs) k' = map_option (f k') (map_of kvs k')"
  by (induction kvs) auto

lemma Object_entries_keys: "map fst (Object_entries d) = Object_keys d"
  by (cases d) simp_all

lemma get_prop_in_keys: "get_prop d k = Some c \<Longrightarrow> k \<in> set (Object_keys d)"
  unfolding get_prop_def Object_entries_keys [symmetric]
  by (metis map_of_eq_None_iff option.distinct(1) set_map)

lemma set_prop_entries:
  "set_prop d k x = Some d' \<Longrightarrow> Object_entries d' = AList.update k x (Object_entries d)"
proof (cases d)
  case (JArray xs)
  assume a: "set_prop d k x = Some d'"
  let ?ks = "map ToString_nat [0..<length xs]"
  let ?u = "AList.update k x (zip ?ks xs)"
  from a JArray have k: "k \<in> set ?ks" and d': "d' = JArray (map snd ?u)"
    by (auto split: if_splits)
  have ks: "map fst ?u = ?ks" using k by (simp add: update_keys)
  have "length ?u = length (map fst ?u)" by simp
  also have "\<dots> = length xs" by (simp only: ks) simp
  finally have len: "length ?u = length xs" .
  have "zip (map ToString_nat [0..<length (map snd ?u)]) (map snd ?u) = zip (map fst ?u) (map snd ?u)"
    by (simp only: ks length_map len)
  also have "\<dots> = ?u" by (rule zip_map_fst_snd)
  finally show ?thesis using d' JArray by simp
qed (auto split: if_splits)

lemma set_prop_keys: "set_prop d k x = Some d' \<Longrightarrow> Object_keys d' = Object_keys d"
proof -
  assume a: "set_prop d k x = Some d'"
  then have "k \<in> set (Object_keys d)" by (cases d) (auto split: if_splits)
  then show ?thesis
    using set_prop_entries [OF a] Object_entries_keys [of d] Object_entries_keys [of d']
    by (simp add: update_keys)
qed

lemma set_prop_Some_iff: "(\<exists>d'. set_prop d k x = Some d') \<longleftrightarrow> k \<in> set (Object_keys d)"
  by (cases d) auto

lemma get_prop_None_iff: "get_prop d k = None \<longleftrightarrow> k \<notin> set (Object_keys d)"
  unfolding get_prop_def Object_entries_keys [symmetric]
  by (simp add: map_of_eq_None_iff)

lemma get_set_prop:
  "set_prop d k x = Some d' \<Longrightarrow> get_prop d' k' = (if k' = k then Some x else get_prop d k')"
proof -
  assume a: "set_prop d k x = Some d'"
  then have "k \<in> set (Object_keys d)" using set_prop_Some_iff by blast
  then obtain c where "get_prop d k = Some c"
    using get_prop_None_iff by (cases "get_prop d k") auto
  then show ?thesis
    using a by (auto simp: get_prop_def set_prop_entries update_conv)
qed

lemma set_prop_is_leaf: "set_prop d k x = Some d' \<Longrightarrow> \<not> is_leaf d \<and> \<not> is_leaf d'"
  by (cases d) (auto split: if_splits)

lemma assign_path_Cons:
  "assign_path (k # p) x d =
     (if p = [] then set_prop d k x
      else case get_prop d k of None \<Rightarrow> None
           | Some c \<Rightarrow> (case assign_path p x c of None \<Rightarrow> None | Some c' \<Rightarrow> set_prop d k c'))"
  by (cases p) auto

lemma assign_path_succeeds:
  "p \<noteq> [] \<Longrightarrow> get_path p d = Some old \<Longrightarrow> \<exists>d'. assign_path p x d = Some d'"
proof (induction p arbitrary: d)
  case Nil
  then show ?case by simp
next
  case (Cons k p)
  from Cons.prems obtain c where c: "get_prop d k = Some c" "get_path p c = Some old"
    by (auto split: option.splits)
  then have k: "k \<in> set (Object_keys d)" by (auto dest: get_prop_in_keys)
  show ?case
  proof (cases "p = []")
    case True
    with k show ?thesis using set_prop_Some_iff [of d k x] by (simp add: assign_path_Cons)
  next
    case False
    with Cons.IH c obtain c' where "assign_path p x c = Some c'" by blast
    with c k False show ?thesis
      using set_prop_Some_iff [of d k c'] by (simp add: assign_path_Cons)
  qed
qed

lemma get_assign_path_same:
  "assign_path p x d = Some d' \<Longrightarrow> get_path p d' = Some x"
proof (induction p arbitrary: d d')
  case Nil
  then show ?case by simp
next
  case (Cons k p)
  show ?case
  proof (cases "p = []")
    case True
    with Cons.prems show ?thesis by (simp add: get_set_prop)
  next
    case False
    with Cons.prems obtain c c' where
      c: "get_prop d k = Some c" "assign_path p x c = Some c'" "set_prop d k c' = Some d'"
      by (auto simp: assign_path_Cons split: option.splits)
    with Cons.IH show ?thesis by (simp add: get_set_prop)
  qed
qed


lemma get_path_leaf: "is_leaf v \<Longrightarrow> get_path q v = (if q = [] then Some v else None)"
  by (cases q; cases v) (simp_all add: get_prop_def)

lemma keys_leaf: "is_leaf v \<Longrightarrow> Object_keys v = []"
  by (cases v) simp_all

lemma assign_path_keys:
  "assign_path p x d = Some d' \<Longrightarrow> get_path p d = Some old \<Longrightarrow> is_leaf old \<Longrightarrow> is_leaf x \<Longrightarrow>
   map_option Object_keys (get_path q d') = map_option Object_keys (get_path q d)"
proof (induction p arbitrary: d d' q)
  case Nil
  then show ?case by simp
next
  case (Cons k p)
  from Cons.prems(2) obtain c where c: "get_prop d k = Some c" "get_path p c = Some old"
    by (auto split: option.splits)
  obtain c' where c': "set_prop d k c' = Some d'"
      and cc: "if p = [] then c' = x else assign_path p x c = Some c'"
    using Cons.prems(1) c by (auto simp: assign_path_Cons split: if_splits option.splits)
  show ?case
  proof (cases q)
    case Nil
    then show ?thesis using c' by (simp add: set_prop_keys)
  next
    case (Cons k' q')
    show ?thesis
    proof (cases "k' = k")
      case False
      then show ?thesis using Cons c' by (simp add: get_set_prop)
    next
      case True
      have "map_option Object_keys (get_path q' c') = map_option Object_keys (get_path q' c)"
      proof (cases "p = []")
        case True
        with cc c Cons.prems show ?thesis by (simp add: get_path_leaf keys_leaf)
      next
        case False
        with cc have "assign_path p x c = Some c'" by simp
        then show ?thesis using c Cons.prems by (intro Cons.IH) auto
      qed
      then show ?thesis using Cons True c c' by (simp add: get_set_prop)
    qed
  qed
qed

lemma assign_path_frame:
  "assign_path p x d = Some d' \<Longrightarrow> get_path p d = Some old \<Longrightarrow> is_leaf old \<Longrightarrow> is_leaf x \<Longrightarrow>
   \<not> prefix q p \<Longrightarrow> get_path q d' = get_path q d"
proof (induction p arbitrary: d d' q)
  case Nil
  then show ?case by simp
next
  case (Cons k p)
  from Cons.prems(2) obtain c where c: "get_prop d k = Some c" "get_path p c = Some old"
    by (auto split: option.splits)
  obtain c' where c': "set_prop d k c' = Some d'"
      and cc: "if p = [] then c' = x else assign_path p x c = Some c'"
    using Cons.prems(1) c by (auto simp: assign_path_Cons split: if_splits option.splits)
  from Cons.prems(5) obtain k' q' where q: "q = k' # q'" by (cases q) auto
  show ?case
  proof (cases "k' = k")
    case False
    then show ?thesis using q c' by (simp add: get_set_prop)
  next
    case True
    with q Cons.prems(5) have np: "\<not> prefix q' p" by simp
    have "get_path q' c' = get_path q' c"
    proof (cases "p = []")
      case True
      with np have "q' \<noteq> []" by auto
      with True cc c Cons.prems show ?thesis by (simp add: get_path_leaf)
    next
      case False
      with cc have "assign_path p x c = Some c'" by simp
      then show ?thesis using c Cons.prems np by (intro Cons.IH) auto
    qed
    then show ?thesis using q True c c' by (simp add: get_set_prop)
  qed
qed


lemma createFields_key:
  "createFields h p data = concat (map (\<lambda>key.
       (case get_prop data key of
          None \<Rightarrow> [SettingText key (str ''undefined'') (p @ [key])]
        | Some v \<Rightarrow>
            if is_leaf v then [SettingText key (js_String h v) (p @ [key])]
            else [Details key (createFields h (p @ [key]) v)]))
       (sort (Object_keys data)))"
  unfolding createFields.simps [of h p data]
  by (intro arg_cong [where f = concat] map_cong refl) (simp add: object_test split: option.splits)

lemma all_fields_createFields:
  "(q, t) \<in> set (all_fields (createFields h p d)) \<longleftrightarrow>
   (\<exists>r v. q = p @ r \<and> r \<noteq> [] \<and> get_path r d = Some v \<and> is_leaf v \<and> t = js_String h v)"
proof (induction "size d" arbitrary: p d rule: less_induct)
  case less
  have IH: "\<And>k c. get_prop d k = Some c \<Longrightarrow>
      (q, t) \<in> set (all_fields (createFields h (p @ [k]) c)) \<longleftrightarrow>
      (\<exists>r v. q = (p @ [k]) @ r \<and> r \<noteq> [] \<and> get_path r c = Some v \<and> is_leaf v \<and> t = js_String h v)"
    by (rule less) (rule get_prop_size)
  have keys: "\<And>k. k \<in> set (Object_keys d) \<longleftrightarrow> get_prop d k \<noteq> None"
    by (simp add: get_prop_None_iff)
  show ?case (is "?L \<longleftrightarrow> ?R")
  proof
    assume ?L
    then obtain k where k: "k \<in> set (Object_keys d)"
      and in_k: "(q, t) \<in> set (all_fields (case get_prop d k of
          None \<Rightarrow> [SettingText k (str ''undefined'') (p @ [k])]
        | Some v \<Rightarrow> if is_leaf v then [SettingText k (js_String h v) (p @ [k])]
            else [Details k (createFields h (p @ [k]) v)]))"
      by (subst (asm) createFields_key) (auto simp: all_fields_def)
    from k obtain c where c: "get_prop d k = Some c" using keys by auto
    show ?R
    proof (cases "is_leaf c")
      case True
      with in_k c have "q = p @ [k]" "t = js_String h c" by (simp_all add: all_fields_def)
      with True c show ?thesis by (intro exI [of _ "[k]"] exI [of _ c]) simp
    next
      case False
      with in_k c have "(q, t) \<in> set (all_fields (createFields h (p @ [k]) c))"
        by (simp add: all_fields_def)
      then obtain r v where "q = (p @ [k]) @ r" "r \<noteq> []" "get_path r c = Some v" "is_leaf v" "t = js_String h v"
        using IH [OF c] by blast
      with c show ?thesis by (intro exI [of _ "k # r"] exI [of _ v]) simp
    qed
  next
    assume ?R
    then obtain r v where r: "q = p @ r" "r \<noteq> []" "get_path r d = Some v" "is_leaf v" "t = js_String h v"
      by blast
    then obtain k r' where kr: "r = k # r'" by (cases r) auto
    with r obtain c where c: "get_prop d k = Some c" "get_path r' c = Some v"
      by (auto split: option.splits)
    then have k: "k \<in> set (sort (Object_keys d))" using keys by simp
    have "(q, t) \<in> set (all_fields (if is_leaf c then [SettingText k (js_String h c) (p @ [k])]
            else [Details k (createFields h (p @ [k]) c)]))"
    proof (cases "is_leaf c")
      case True
      with c r kr show ?thesis by (simp add: get_path_leaf all_fields_def split: if_splits)
    next
      case False
      then have "r' \<noteq> []" using c r by (cases r') auto
      then have "(q, t) \<in> set (all_fields (createFields h (p @ [k]) c))"
        using IH [OF c(1)] r kr c by auto
      with False show ?thesis by (simp add: all_fields_def)
    qed
    with k c show ?L
      by (subst createFields_key) (force simp: all_fields_def)
  qed
qed


lemma group_concat:
  "k \<in> set ks \<Longrightarrow> f k = [Details k cs] \<Longrightarrow>
   (\<And>k'. k' \<in> set ks \<Longrightarrow> k' \<noteq> k \<Longrightarrow> \<exists>e. f k' = [e] \<and> label e = k') \<Longrightarrow>
   group k (concat (map f ks)) = Some cs"
proof (induction ks)
  case Nil
  then show ?case by simp
next
  case (Cons a ks)
  show ?case
  proof (cases "a = k")
    case True
    with Cons.prems show ?thesis by simp
  next
    case False
    with Cons.prems obtain e where e: "f a = [e]" "label e = a" by force
    from False Cons.prems have "k \<in> set ks" by simp
    then have "group k (concat (map f ks)) = Some cs"
      using Cons.prems by (intro Cons.IH) auto
    with e False show ?thesis by (cases e) auto
  qed
qed

lemma group_createFields:
  "get_prop d k = Some c \<Longrightarrow> \<not> is_leaf c \<Longrightarrow>
   group k (createFields h p d) = Some (createFields h (p @ [k]) c)"
  apply (subst createFields_key)
  apply (rule group_concat)
    apply (simp add: get_prop_in_keys)
   apply simp
  apply (simp split: option.splits)
  done

lemma children_at_createFields:
  "get_path q d = Some c \<Longrightarrow> \<not> is_leaf c \<Longrightarrow>
   children_at q (createFields h p d) = Some (createFields h (p @ q) c)"
proof (induction q arbitrary: d p)
  case Nil
  then show ?case by simp
next
  case (Cons k q)
  from Cons.prems obtain c1 where c1: "get_prop d k = Some c1" "get_path q c1 = Some c"
    by (auto split: option.splits)
  have "\<not> is_leaf c1"
  proof
    assume "is_leaf c1"
    with c1 Cons.prems show False by (simp add: get_path_leaf split: if_splits)
  qed
  with c1 Cons.prems Cons.IH [of c1 "p @ [k]"] show ?case
    by (simp add: group_createFields)
qed

lemma ToString_nat_digit: "n < 10 \<Longrightarrow> ToString_nat n = [of_nat (48 + n)]"
  by (simp add: ToString_nat.simps)

lemma digit_word_le: "i \<le> j \<Longrightarrow> j < 10 \<Longrightarrow> (of_nat (48 + i) :: 16 word) \<le> of_nat (48 + j)"
proof -
  assume a: "i \<le> j" "j < 10"
  then have "take_bit 16 (48 + i) = 48 + i" "take_bit 16 (48 + j) = 48 + j"
    by (simp_all add: take_bit_nat_eq_self)
  with a show ?thesis by (simp only: word_of_nat_less_eq_iff) simp
qed

lemma sorted_digit_keys: "n \<le> 10 \<Longrightarrow> sorted (map ToString_nat [0..<n])"
proof -
  assume n: "n \<le> 10"
  have "sorted_wrt (\<lambda>i j. ToString_nat i \<le> ToString_nat j) [0..<n]"
  proof (rule sorted_wrt_mono_rel [of _ "(<)"])
    fix i j assume "i \<in> set [0..<n]" "j \<in> set [0..<n]" "i < j"
    with n have "i < 10" "j < 10" "i \<le> j" by auto
    then have "(of_nat (48 + i) :: 16 word) \<le> of_nat (48 + j)"
      and "ToString_nat i = [of_nat (48 + i)]" "ToString_nat j = [of_nat (48 + j)]"
      by (simp_all only: ToString_nat_digit digit_word_le)
    then show "ToString_nat i \<le> ToString_nat j"
      by (simp only: Cons_le_Cons) (simp only: le_less, simp)
  qed (simp add: sorted_wrt_upt)
  then show ?thesis by (simp add: sorted_map)
qed

lemma sort_digit_keys: "n \<le> 10 \<Longrightarrow> sort (map ToString_nat [0..<n]) = map ToString_nat [0..<n]"
  by (simp add: sorted_digit_keys sort_key_id_if_sorted)

lemma set_prop_same: "get_prop d k = Some c \<Longrightarrow> set_prop d k c = Some d"
proof (cases d)
  case (JArray xs)
  assume a: "get_prop d k = Some c"
  let ?al = "zip (map ToString_nat [0..<length xs]) xs"
  from a JArray have m: "map_of ?al k = Some c" by (simp add: get_prop_def)
  then have "AList.update k c ?al = ?al" by (rule update_triv)
  moreover have "k \<in> set (map ToString_nat [0..<length xs])"
    using a JArray get_prop_in_keys [of d k c] by simp
  ultimately show ?thesis using JArray by simp
next
  case (JObject kvs)
  assume a: "get_prop d k = Some c"
  with JObject have "map_of kvs k = Some c" by (simp add: get_prop_def)
  then have "AList.update k c kvs = kvs" by (rule update_triv)
  moreover have "k \<in> set (map fst kvs)"
    using a JObject get_prop_in_keys [of d k c] by simp
  ultimately show ?thesis using JObject by simp
qed (simp_all add: get_prop_def)

lemma assign_path_same: "p \<noteq> [] \<Longrightarrow> get_path p d = Some c \<Longrightarrow> assign_path p c d = Some d"
proof (induction p arbitrary: d)
  case Nil
  then show ?case by simp
next
  case (Cons k p)
  from Cons.prems obtain c1 where c1: "get_prop d k = Some c1" "get_path p c1 = Some c"
    by (auto split: option.splits)
  show ?case
  proof (cases "p = []")
    case True
    with c1 show ?thesis by (simp add: set_prop_same)
  next
    case False
    with Cons.IH c1 have "assign_path p c c1 = Some c1" by simp
    with c1 False show ?thesis by (simp add: assign_path_Cons set_prop_same)
  qed
qed

lemma code_points_no_high:
  "\<forall>c \<in> set k. \<not> is_high_surrogate c \<Longrightarrow> StringToCodePoints k = map uint k"
  by (induction k rule: StringToCodePoints.induct) auto

lemma map_uint_le: "map uint k1 \<le> map uint k2 \<longleftrightarrow> k1 \<le> (k2 :: jsstring)"
proof (induction k1 k2 rule: list_induct2')
  case (4 x xs y ys)
  then show ?case
    by (simp add: Cons_le_Cons word_less_def word_uint_eq_iff)
qed simp_all

lemma insort_key_embed:
  "(\<And>y. y \<in> set ys \<Longrightarrow> (f x \<le> f y) = (x \<le> y)) \<Longrightarrow> insort_key f x ys = insort x ys"
  by (induction ys) auto

lemma sort_key_embed:
  "(\<And>x y. x \<in> set xs \<Longrightarrow> y \<in> set xs \<Longrightarrow> (f x \<le> f y) = (x \<le> y)) \<Longrightarrow> sort_key f xs = sort xs"
proof (induction xs)
  case Nil
  then show ?case by simp
next
  case (Cons a xs)
  then have "sort_key f xs = sort xs" by simp
  moreover have "insort_key f a (sort xs) = insort a (sort xs)"
    by (rule insort_key_embed) (simp add: Cons.prems)
  ultimately show ?case by simp
qed

lemma sort_by_code_points:
  "\<forall>k \<in> set ks. \<forall>c \<in> set k. \<not> is_high_surrogate c \<Longrightarrow> sort_key StringToCodePoints ks = sort ks"
  by (rule sort_key_embed) (simp add: code_points_no_high map_uint_le)

section \<open>Properties of the JSON text functions\<close>

subsection \<open>Strings\<close>

lemma uint_small: "0 \<le> k \<Longrightarrow> k < 65536 \<Longrightarrow> uint (word_of_int k :: jschar) = k"
  by (simp add: uint_word_of_int_eq take_bit_int_eq_self)

lemma hex_value_digit: "0 \<le> d \<Longrightarrow> d < 16 \<Longrightarrow> hex_value (hex_digit d) = Some d"
proof (cases "d < 10")
  case True
  assume d: "0 \<le> d" "d < 16"
  with True have "uint (word_of_int (48 + d) :: jschar) = 48 + d" by (intro uint_small) simp_all
  with d True show ?thesis by (simp add: hex_value_def hex_digit_def word_le_def)
next
  case False
  assume d: "0 \<le> d" "d < 16"
  with False have "uint (word_of_int (87 + d) :: jschar) = 87 + d" by (intro uint_small) simp_all
  with d False show ?thesis by (simp add: hex_value_def hex_digit_def word_le_def)
qed

lemma uint_hex_split:
  "0 \<le> u \<Longrightarrow> u < 65536 \<Longrightarrow>
   4096 * (u div 4096 mod 16) + 256 * (u div 256 mod 16) + 16 * (u div 16 mod 16) + u mod 16 = (u :: int)"
proof -
  assume u: "0 \<le> u" "u < 65536"
  have 1: "u = 16 * (u div 16) + u mod 16" by simp
  have 2: "u div 16 = 16 * (u div 16 div 16) + u div 16 mod 16" by simp
  have 3: "u div 16 div 16 = 16 * (u div 16 div 16 div 16) + u div 16 div 16 mod 16" by simp
  have 4: "u div 16 div 16 div 16 < 16" using u by simp
  have 5: "0 \<le> u div 16 div 16 div 16" using u by simp
  have d: "u div 256 = u div 16 div 16" "u div 4096 = u div 16 div 16 div 16"
    by (simp_all add: zdiv_zmult2_eq)
  from 4 5 have 6: "u div 16 div 16 div 16 mod 16 = u div 16 div 16 div 16" by simp
  show ?thesis unfolding d 6 using 1 2 3 by linarith
qed

lemma hex4_UnicodeEscape:
  "hex4 (hex_digit (uint c div 4096 mod 16)) (hex_digit (uint c div 256 mod 16))
        (hex_digit (uint c div 16 mod 16)) (hex_digit (uint c mod 16)) = Some (c :: jschar)"
proof -
  let ?u = "uint c"
  have u: "0 \<le> ?u" "?u < 65536" using uint_bounded [of c] by simp_all
  have d: "hex_value (hex_digit (?u div 4096 mod 16)) = Some (?u div 4096 mod 16)"
      "hex_value (hex_digit (?u div 256 mod 16)) = Some (?u div 256 mod 16)"
      "hex_value (hex_digit (?u div 16 mod 16)) = Some (?u div 16 mod 16)"
      "hex_value (hex_digit (?u mod 16)) = Some (?u mod 16)"
    by (rule hex_value_digit, simp, simp)+
  have "hex4 (hex_digit (?u div 4096 mod 16)) (hex_digit (?u div 256 mod 16))
        (hex_digit (?u div 16 mod 16)) (hex_digit (?u mod 16))
      = Some (word_of_int (4096 * (?u div 4096 mod 16) + 256 * (?u div 256 mod 16)
          + 16 * (?u div 16 mod 16) + ?u mod 16))"
    unfolding hex4_def d by simp
  also have "\<dots> = Some (word_of_int ?u)"
    by (simp only: uint_hex_split [OF u])
  finally show ?thesis by simp
qed

lemma parse_string_verbatim:
  "\<not> c < 0x20 \<Longrightarrow> c \<noteq> 0x22 \<Longrightarrow> c \<noteq> 0x5C \<Longrightarrow>
   parse_string_chars (c # cs) = cons_result c (parse_string_chars cs)"
  by simp

lemma parse_string_quote: "parse_string_chars (0x22 # cs) = Some ([], cs)"
  by simp

lemma parse_string_escape:
  "unescape e = Some x \<Longrightarrow> e \<noteq> 0x75 \<Longrightarrow>
   parse_string_chars (0x5C # e # cs) = cons_result x (parse_string_chars cs)"
  by simp

lemma parse_string_unicode:
  "hex4 a b c d = Some u \<Longrightarrow>
   parse_string_chars (0x5C # 0x75 # a # b # c # d # cs) = cons_result u (parse_string_chars cs)"
  by simp

declare parse_string_chars.simps(2) [simp del]

lemma surrogate_verbatim:
  "is_high_surrogate c \<or> is_low_surrogate c \<Longrightarrow> \<not> c < 0x20 \<and> c \<noteq> 0x22 \<and> c \<noteq> 0x5C"
  by (auto simp: is_high_surrogate_def is_low_surrogate_def word_le_def word_less_def)

lemma parse_json_escape:
  "parse_string_chars (json_escape c @ cs) = cons_result c (parse_string_chars cs)"
proof -
  consider "c = 0x08" | "c = 0x09" | "c = 0x0A" | "c = 0x0C" | "c = 0x0D" | "c = 0x22" | "c = 0x5C"
    | "c \<notin> {0x08, 0x09, 0x0A, 0x0C, 0x0D, 0x22, 0x5C}" "c < 0x20 \<or> is_high_surrogate c \<or> is_low_surrogate c"
    | "c \<notin> {0x08, 0x09, 0x0A, 0x0C, 0x0D, 0x22, 0x5C}" "\<not> (c < 0x20 \<or> is_high_surrogate c \<or> is_low_surrogate c)"
    by blast
  then show ?thesis
  proof cases
    case 8
    then show ?thesis
      by (simp add: json_escape_def UnicodeEscape_def hex4_UnicodeEscape parse_string_unicode)
  next
    case 9
    then show ?thesis by (simp add: json_escape_def parse_string_verbatim)
  qed (simp_all add: json_escape_def unescape_def parse_string_escape)
qed

lemma parse_quote_chars:
  "parse_string_chars (quote_chars s @ 0x22 # rest) = Some (s, rest)"
proof (induction s rule: quote_chars.induct)
  case 1
  then show ?case by (simp add: parse_string_quote)
next
  case (2 c)
  then show ?case by (simp add: parse_json_escape parse_string_quote cons_result_def)
next
  case (3 c d cs)
  show ?case
  proof (cases "is_high_surrogate c \<and> is_low_surrogate d")
    case True
    then have "\<not> c < 0x20 \<and> c \<noteq> 0x22 \<and> c \<noteq> 0x5C" "\<not> d < 0x20 \<and> d \<noteq> 0x22 \<and> d \<noteq> 0x5C"
      by (simp_all add: surrogate_verbatim)
    then have "parse_string_chars (c # d # quote_chars cs @ 0x22 # rest)
        = cons_result c (cons_result d (parse_string_chars (quote_chars cs @ 0x22 # rest)))"
      by (simp add: parse_string_verbatim)
    with True 3 show ?thesis by (simp add: cons_result_def)
  next
    case False
    with 3 have "parse_string_chars (quote_chars (d # cs) @ 0x22 # rest) = Some (d # cs, rest)"
      by blast
    moreover from False have "quote_chars (c # d # cs) = json_escape c @ quote_chars (d # cs)"
      by auto
    ultimately show ?thesis
      by (simp only: append_assoc parse_json_escape) (simp add: cons_result_def)
  qed
qed

lemma parse_QuoteJSONString:
  "parse_string_chars (tl (QuoteJSONString s) @ rest) = Some (s, rest)"
  by (simp add: QuoteJSONString_def parse_quote_chars)



subsection \<open>Whitespace and numbers\<close>

lemma skip_ws_append:
  "list_all is_ws ws \<Longrightarrow> \<not> is_ws c \<Longrightarrow> skip_ws (ws @ c # r) = c # r"
  by (induction ws) (simp_all add: skip_ws_def)

lemma skip_ws_Cons: "\<not> is_ws c \<Longrightarrow> skip_ws (c # r) = c # r"
  by (simp add: skip_ws_def)

lemma length_skip_ws: "length (skip_ws cs) \<le> length cs"
  by (simp add: skip_ws_def length_dropWhile_le)

definition number_stop :: "jsstring \<Rightarrow> bool" where
  "number_stop rest \<longleftrightarrow>
     (case rest of [] \<Rightarrow> True
      | c # r \<Rightarrow> \<not> is_digit c \<and> c \<noteq> 0x2E \<and> c \<noteq> 0x65 \<and> c \<noteq> 0x45)"

lemma takeWhile_dropWhile_append:
  "dropWhile P xs = r \<Longrightarrow> (r = [] \<Longrightarrow> ys = [] \<or> \<not> P (hd ys)) \<Longrightarrow>
   takeWhile P (xs @ ys) = takeWhile P xs \<and> dropWhile P (xs @ ys) = r @ ys"
proof (induction xs)
  case Nil
  then show ?case by (cases ys) auto
next
  case (Cons x xs)
  then show ?case by (cases "P x") auto
qed

lemma digits_append:
  "dropWhile is_digit xs = r \<Longrightarrow> (r = [] \<Longrightarrow> number_stop ys) \<Longrightarrow>
   takeWhile is_digit (xs @ ys) = takeWhile is_digit xs \<and> dropWhile is_digit (xs @ ys) = r @ ys"
  by (rule takeWhile_dropWhile_append) (auto simp: number_stop_def split: list.splits)

lemma scan_fraction_append:
  "scan_fraction cs = Some (fr, r) \<Longrightarrow> (r = [] \<Longrightarrow> number_stop rest) \<Longrightarrow>
   scan_fraction (cs @ rest) = Some (fr, r @ rest)"
proof (cases cs)
  case Nil
  assume "scan_fraction cs = Some (fr, r)" "r = [] \<Longrightarrow> number_stop rest"
  with Nil show ?thesis
    by (cases rest) (auto simp: scan_fraction_def number_stop_def)
next
  case (Cons c r0)
  assume a: "scan_fraction cs = Some (fr, r)" "r = [] \<Longrightarrow> number_stop rest"
  show ?thesis
  proof (cases "c = 0x2E")
    case True
    with a Cons have r: "dropWhile is_digit r0 = r" and t: "takeWhile is_digit r0 \<noteq> []"
        and fr: "fr = c # takeWhile is_digit r0"
      by (auto simp: scan_fraction_def split: if_splits)
    from digits_append [OF r a(2)] t fr True Cons show ?thesis
      by (simp add: scan_fraction_def)
  next
    case False
    with a Cons show ?thesis by (auto simp: scan_fraction_def)
  qed
qed

lemma scan_exponent_append:
  "scan_exponent cs = Some (ex, r) \<Longrightarrow> (r = [] \<Longrightarrow> number_stop rest) \<Longrightarrow>
   scan_exponent (cs @ rest) = Some (ex, r @ rest)"
proof (cases cs)
  case Nil
  assume "scan_exponent cs = Some (ex, r)" "r = [] \<Longrightarrow> number_stop rest"
  with Nil show ?thesis
    by (cases rest) (auto simp: scan_exponent_def number_stop_def)
next
  case (Cons c r0)
  assume a: "scan_exponent cs = Some (ex, r)" "r = [] \<Longrightarrow> number_stop rest"
  show ?thesis
  proof (cases "c = 0x65 \<or> c = 0x45")
    case True
    define sg where "sg = (if take 1 r0 = [0x2B] \<or> take 1 r0 = [0x2D] then take 1 r0 else [])"
    from True a Cons have r: "dropWhile is_digit (drop (length sg) r0) = r"
        and t: "takeWhile is_digit (drop (length sg) r0) \<noteq> []"
        and ex: "ex = c # sg @ takeWhile is_digit (drop (length sg) r0)"
      by (auto simp: scan_exponent_def sg_def Let_def split: if_splits)
    from t have ne: "drop (length sg) r0 \<noteq> []" by auto
    then have l: "length sg \<le> length r0" by simp
    from ne have "r0 \<noteq> []" by auto
    then have sg': "(if take 1 (r0 @ rest) = [0x2B] \<or> take 1 (r0 @ rest) = [0x2D] then take 1 (r0 @ rest) else []) = sg"
      by (cases r0) (simp_all add: sg_def)
    have d: "drop (length sg) (r0 @ rest) = drop (length sg) r0 @ rest" using l by simp
    from digits_append [OF r a(2)] t ex True Cons sg' d show ?thesis
      by (simp add: scan_exponent_def Let_def)
  next
    case False
    with a Cons show ?thesis by (auto simp: scan_exponent_def)
  qed
qed


lemma scan_int_append:
  "scan_int cs = Some (ip, r) \<Longrightarrow> (r = [] \<Longrightarrow> number_stop rest) \<Longrightarrow>
   scan_int (cs @ rest) = Some (ip, r @ rest)"
proof (cases cs)
  case Nil
  assume "scan_int cs = Some (ip, r)"
  with Nil show ?thesis by (simp add: scan_int_def)
next
  case (Cons d r0)
  assume a: "scan_int cs = Some (ip, r)" "r = [] \<Longrightarrow> number_stop rest"
  show ?thesis
  proof (cases "d = 0x30")
    case True
    with a Cons show ?thesis by (auto simp: scan_int_def split: if_splits)
  next
    case False
    with a Cons have r: "dropWhile is_digit r0 = r" and ip: "ip = d # takeWhile is_digit r0"
        and d: "is_digit d"
      by (auto simp: scan_int_def split: if_splits)
    from digits_append [OF r a(2)] ip d False Cons show ?thesis
      by (simp add: scan_int_def)
  qed
qed

lemma scan_fraction_Nil: "scan_fraction cs = Some (fr, r) \<Longrightarrow> cs = [] \<Longrightarrow> r = []"
  by (simp add: scan_fraction_def)

lemma scan_exponent_Nil: "scan_exponent cs = Some (ex, r) \<Longrightarrow> cs = [] \<Longrightarrow> r = []"
  by (simp add: scan_exponent_def)

lemma scan_unsigned_append:
  assumes "scan_unsigned cs = Some (tok, r)" and "r = [] \<Longrightarrow> number_stop rest"
  shows "scan_unsigned (cs @ rest) = Some (tok, r @ rest)"
proof -
  from assms(1) obtain ip r2 fr r3 ex where
      ip: "scan_int cs = Some (ip, r2)" and fr: "scan_fraction r2 = Some (fr, r3)"
      and ex: "scan_exponent r3 = Some (ex, r)" and tok: "tok = ip @ fr @ ex"
    by (auto simp: scan_unsigned_def split: option.splits)
  have r3: "r3 = [] \<Longrightarrow> number_stop rest"
    using scan_exponent_Nil [OF ex] assms(2) by simp
  have r2: "r2 = [] \<Longrightarrow> number_stop rest"
    using scan_fraction_Nil [OF fr] r3 by simp
  show ?thesis
    using scan_int_append [OF ip r2] scan_fraction_append [OF fr r3]
      scan_exponent_append [OF ex assms(2)] tok
    by (simp add: scan_unsigned_def)
qed

lemma scan_number_append:
  assumes "scan_number cs = Some (tok, r)" and "r = [] \<Longrightarrow> number_stop rest"
  shows "scan_number (cs @ rest) = Some (tok, r @ rest)"
proof (cases cs)
  case Nil
  with assms(1) show ?thesis by (simp add: scan_number_def)
next
  case (Cons c r0)
  show ?thesis
  proof (cases "c = 0x2D")
    case True
    with assms(1) Cons obtain t where t: "scan_unsigned r0 = Some (t, r)" and tok: "tok = c # t"
      by (auto simp: scan_number_def)
    from scan_unsigned_append [OF t assms(2)] tok True Cons show ?thesis
      by (simp add: scan_number_def)
  next
    case False
    with assms(1) Cons have "scan_unsigned cs = Some (tok, r)"
      by (simp add: scan_number_def)
    from scan_unsigned_append [OF this assms(2)] False Cons show ?thesis
      by (simp add: scan_number_def)
  qed
qed

definition is_number_literal :: "jsstring \<Rightarrow> bool" where
  "is_number_literal tok \<longleftrightarrow> scan_number tok = Some (tok, [])"

lemma scan_number_literal:
  "is_number_literal tok \<Longrightarrow> number_stop rest \<Longrightarrow> scan_number (tok @ rest) = Some (tok, rest)"
  using scan_number_append [of tok tok "[]" rest] by (simp add: is_number_literal_def)

lemma number_literal_start:
  "is_number_literal tok \<Longrightarrow> \<exists>c r. tok = c # r \<and> (c = 0x2D \<or> is_digit c)"
  by (cases tok)
    (auto simp: is_number_literal_def scan_number_def scan_unsigned_def scan_int_def
      split: if_splits option.splits)


subsection \<open>Property order\<close>

lemma key_order_last_index:
  "key_order_ok (ks @ [k]) \<Longrightarrow> array_index k = Some i \<Longrightarrow>
   \<forall>k' \<in> set ks. \<exists>j. array_index k' = Some j \<and> j \<le> i"
proof (induction ks rule: key_order_ok.induct)
  case (1 k1 k2 ks)
  then have IH: "\<forall>k' \<in> set (k2 # ks). \<exists>j. array_index k' = Some j \<and> j \<le> i" by simp
  then obtain j2 where j2: "array_index k2 = Some j2" "j2 \<le> i" by auto
  with 1(2) obtain i1 where "array_index k1 = Some i1" "i1 \<le> j2"
    by (auto split: option.splits)
  with j2 IH show ?case by auto
qed (auto split: option.splits)

lemma insert_index_append:
  "\<forall>kv \<in> set kvs. \<exists>j. array_index (fst kv) = Some j \<and> j \<le> i \<Longrightarrow>
   insert_index i k v kvs = kvs @ [(k, v)]"
  by (induction kvs) auto

lemma define_prop_append:
  "k \<notin> set (map fst kvs) \<Longrightarrow> key_order_ok (map fst kvs @ [k]) \<Longrightarrow>
   define_prop k v kvs = kvs @ [(k, v)]"
proof (cases "array_index k")
  case None
  assume "k \<notin> set (map fst kvs)"
  with None show ?thesis by (simp add: define_prop_def)
next
  case (Some i)
  assume a: "k \<notin> set (map fst kvs)" "key_order_ok (map fst kvs @ [k])"
  from key_order_last_index [OF a(2) Some]
  have "insert_index i k v kvs = kvs @ [(k, v)]"
    by (intro insert_index_append) auto
  with a(1) Some show ?thesis by (simp add: define_prop_def)
qed

lemma key_order_append_other:
  "key_order_ok ks \<Longrightarrow> array_index k = None \<Longrightarrow> key_order_ok (ks @ [k])"
  by (induction ks rule: key_order_ok.induct) auto

lemma key_order_Cons:
  "key_order_ok (k1 # ks) \<longleftrightarrow>
     (case ks of [] \<Rightarrow> True
      | k2 # ks' \<Rightarrow>
          (case array_index k2 of None \<Rightarrow> True
           | Some j \<Rightarrow> (case array_index k1 of None \<Rightarrow> False | Some i \<Rightarrow> i \<le> j))
          \<and> key_order_ok ks)"
  by (cases ks) simp_all

lemma keys_insert_index:
  "set (map fst (insert_index i k v kvs)) = insert k (set (map fst kvs))"
  by (induction kvs) (auto split: option.splits)

lemma distinct_insert_index:
  "k \<notin> set (map fst kvs) \<Longrightarrow> distinct (map fst kvs) \<Longrightarrow>
   distinct (map fst (insert_index i k v kvs))"
proof (induction kvs)
  case Nil
  then show ?case by simp
next
  case (Cons kv kvs)
  then have "fst kv \<notin> set (map fst (insert_index i k v kvs))"
    unfolding keys_insert_index by auto
  with Cons show ?case by (auto split: option.splits)
qed

lemma values_insert_index:
  "set (map snd (insert_index i k v kvs)) = insert v (set (map snd kvs))"
  by (induction kvs) (auto split: option.splits)

lemma key_order_insert_index:
  "key_order_ok (map fst kvs) \<Longrightarrow> array_index k = Some i \<Longrightarrow>
   key_order_ok (map fst (insert_index i k v kvs))"
proof (induction kvs)
  case Nil
  then show ?case by simp
next
  case (Cons kv kvs)
  show ?case
  proof (cases "array_index (fst kv)")
    case None
    with Cons.prems show ?thesis by simp
  next
    case (Some j)
    show ?thesis
    proof (cases "j \<le> i")
      case False
      with Some Cons.prems show ?thesis by simp
    next
      case True
      from Cons.prems have "key_order_ok (map fst kvs)" by (cases kvs) auto
      with Cons have IH: "key_order_ok (map fst (insert_index i k v kvs))" by simp
      show ?thesis
      proof (cases kvs)
        case Nil
        with True Some Cons.prems show ?thesis by simp
      next
        case (Cons kv' kvs')
        with True Some Cons.prems IH show ?thesis
          by (auto split: option.splits)
      qed
    qed
  qed
qed


subsection \<open>Steps of the parser\<close>

declare parse_value.simps(2) [simp del] parse_elements.simps(2) [simp del]
  parse_members.simps(2) [simp del]

lemma str_null: "str ''null'' = [0x6E, 0x75, 0x6C, 0x6C]"
  and str_true: "str ''true'' = [0x74, 0x72, 0x75, 0x65]"
  and str_false: "str ''false'' = [0x66, 0x61, 0x6C, 0x73, 0x65]"
  and str_indent: "str ''  '' = [0x20, 0x20]"
  and str_colon: "str '': '' = [0x3A, 0x20]"
  and str_brackets: "str ''[]'' = [0x5B, 0x5D]"
  and str_braces: "str ''{}'' = [0x7B, 0x7D]"
  by (simp_all add: str_def)

lemma digit_not_special:
  "c = 0x2D \<or> is_digit c \<Longrightarrow> \<not> is_ws c \<and> c \<noteq> 0x7B \<and> c \<noteq> 0x5B \<and> c \<noteq> 0x22 \<and> c \<noteq> 0x5D \<and> c \<noteq> 0x7D"
  by (auto simp: is_digit_def is_ws_def)

lemma pv_scalar:
  "skip_ws cs = c # r \<Longrightarrow> c \<noteq> 0x7B \<Longrightarrow> c \<noteq> 0x5B \<Longrightarrow>
   parse_value h (Suc n) cs = parse_scalar h (c # r)"
  by (simp add: parse_value.simps(2))

lemma pv_null: "skip_ws cs = str ''null'' @ rest \<Longrightarrow> parse_value h (Suc n) cs = Some (JNull, rest)"
  by (simp add: parse_value.simps(2) parse_scalar_def str_null str_true str_false is_digit_def)

lemma pv_true: "skip_ws cs = str ''true'' @ rest \<Longrightarrow> parse_value h (Suc n) cs = Some (JBool True, rest)"
  by (simp add: parse_value.simps(2) parse_scalar_def str_null str_true str_false is_digit_def)

lemma pv_false: "skip_ws cs = str ''false'' @ rest \<Longrightarrow> parse_value h (Suc n) cs = Some (JBool False, rest)"
  by (simp add: parse_value.simps(2) parse_scalar_def str_null str_true str_false is_digit_def)

lemma pv_string:
  "skip_ws cs = 0x22 # r \<Longrightarrow> parse_string_chars r = Some (s, rest) \<Longrightarrow>
   parse_value h (Suc n) cs = Some (JString s, rest)"
  by (simp add: parse_value.simps(2) parse_scalar_def)

lemma pv_number:
  "skip_ws cs = c # r \<Longrightarrow> c = 0x2D \<or> is_digit c \<Longrightarrow> scan_number (c # r) = Some (tok, rest) \<Longrightarrow>
   parse_value h (Suc n) cs = Some (JNumber (StringToNumber h tok), rest)"
  using digit_not_special [of c] by (simp add: parse_value.simps(2) parse_scalar_def)

lemma pv_array_empty:
  "skip_ws cs = 0x5B # r \<Longrightarrow> skip_ws r = 0x5D # rest \<Longrightarrow>
   parse_value h (Suc n) cs = Some (JArray [], rest)"
  by (simp add: parse_value.simps(2))

lemma pv_array:
  "skip_ws cs = 0x5B # r \<Longrightarrow> skip_ws r = c # r' \<Longrightarrow> c \<noteq> 0x5D \<Longrightarrow>
   parse_value h (Suc n) cs = parse_elements h n [] r"
  by (simp add: parse_value.simps(2))

lemma pv_object_empty:
  "skip_ws cs = 0x7B # r \<Longrightarrow> skip_ws r = 0x7D # rest \<Longrightarrow>
   parse_value h (Suc n) cs = Some (JObject [], rest)"
  by (simp add: parse_value.simps(2))

lemma pv_object:
  "skip_ws cs = 0x7B # r \<Longrightarrow> skip_ws r = c # r' \<Longrightarrow> c \<noteq> 0x7D \<Longrightarrow>
   parse_value h (Suc n) cs = parse_members h n [] r"
  by (simp add: parse_value.simps(2))

lemma pe_more:
  "parse_value h n cs = Some (v, r) \<Longrightarrow> skip_ws r = 0x2C # r' \<Longrightarrow>
   parse_elements h (Suc n) acc cs = parse_elements h n (acc @ [v]) r'"
  by (simp add: parse_elements.simps(2))

lemma pe_last:
  "parse_value h n cs = Some (v, r) \<Longrightarrow> skip_ws r = 0x5D # r' \<Longrightarrow>
   parse_elements h (Suc n) acc cs = Some (JArray (acc @ [v]), r')"
  by (simp add: parse_elements.simps(2))

lemma pm_more:
  "skip_ws cs = 0x22 # r \<Longrightarrow> parse_string_chars r = Some (k, r1) \<Longrightarrow> skip_ws r1 = 0x3A # r2 \<Longrightarrow>
   parse_value h n r2 = Some (v, r3) \<Longrightarrow> skip_ws r3 = 0x2C # r4 \<Longrightarrow>
   parse_members h (Suc n) acc cs = parse_members h n (define_prop k v acc) r4"
  by (simp add: parse_members.simps(2))

lemma pm_last:
  "skip_ws cs = 0x22 # r \<Longrightarrow> parse_string_chars r = Some (k, r1) \<Longrightarrow> skip_ws r1 = 0x3A # r2 \<Longrightarrow>
   parse_value h n r2 = Some (v, r3) \<Longrightarrow> skip_ws r3 = 0x7D # r4 \<Longrightarrow>
   parse_members h (Suc n) acc cs = Some (JObject (define_prop k v acc), r4)"
  by (simp add: parse_members.simps(2))


subsection \<open>Reading back what was serialized\<close>

lemma num_ok_literal: "num_ok h n \<Longrightarrow> is_number_literal (NumberToString h n)"
  by (simp add: num_ok_def is_number_literal_def)

lemma ser_start:
  "numbers_ok h v \<Longrightarrow>
   \<exists>c r. SerializeJSONProperty h ind v = c # r \<and> \<not> is_ws c \<and> c \<noteq> 0x5D \<and> c \<noteq> 0x7D"
proof (cases v)
  case (JNumber n)
  assume "numbers_ok h v"
  with JNumber have ok: "num_ok h n" by simp
  from number_literal_start [OF num_ok_literal [OF ok]] obtain c r
    where "NumberToString h n = c # r" "c = 0x2D \<or> is_digit c" by blast
  with ok JNumber digit_not_special [of c] show ?thesis by (simp add: num_ok_def)
qed (simp_all add: str_null str_true str_false str_brackets str_braces is_ws_def QuoteJSONString_def)

lemma number_stop_sep: "number_stop (0x2C # r)" "number_stop (0x0A # r)" "number_stop []"
  by (simp_all add: number_stop_def is_digit_def)

definition reads_back :: "'n host \<Rightarrow> 'n jsvalue \<Rightarrow> bool" where
  "reads_back h v \<longleftrightarrow>
     (\<forall>ind ws rest. list_all is_ws ind \<longrightarrow> list_all is_ws ws \<longrightarrow> number_stop rest \<longrightarrow>
        (\<exists>N. \<forall>m \<ge> N. parse_value h m (ws @ SerializeJSONProperty h ind v @ rest) = Some (v, rest)))"

lemma reads_backD:
  "reads_back h v \<Longrightarrow> list_all is_ws ind \<Longrightarrow> list_all is_ws ws \<Longrightarrow> number_stop rest \<Longrightarrow>
   \<exists>N. \<forall>m \<ge> N. parse_value h m (ws @ SerializeJSONProperty h ind v @ rest) = Some (v, rest)"
  by (simp add: reads_back_def)

lemma reads_back_leaf:
  assumes "(case v of JArray xs \<Rightarrow> False | JObject kvs \<Rightarrow> False | _ \<Rightarrow> True)" and "numbers_ok h v"
  shows "reads_back h v"
  unfolding reads_back_def
proof (intro allI impI)
  fix ind ws rest :: jsstring
  assume ws: "list_all is_ws ws" and stop: "number_stop rest"
  have "parse_value h (Suc n) (ws @ SerializeJSONProperty h ind v @ rest) = Some (v, rest)" for n
  proof (cases v)
    case JNull
    have "skip_ws (ws @ str ''null'' @ rest) = str ''null'' @ rest"
      using ws by (simp add: str_null skip_ws_append is_ws_def)
    with JNull show ?thesis by (simp add: pv_null)
  next
    case (JBool b)
    have "skip_ws (ws @ str ''true'' @ rest) = str ''true'' @ rest"
      "skip_ws (ws @ str ''false'' @ rest) = str ''false'' @ rest"
      using ws by (simp_all add: str_true str_false skip_ws_append is_ws_def)
    with JBool show ?thesis by (cases b) (simp_all add: pv_true pv_false)
  next
    case (JNumber n)
    with assms have ok: "num_ok h n" by simp
    let ?tok = "NumberToString h n"
    from number_literal_start [OF num_ok_literal [OF ok]] obtain c r
      where tok: "?tok = c # r" and c: "c = 0x2D \<or> is_digit c" by blast
    have sk: "skip_ws (ws @ c # r @ rest) = c # r @ rest"
      using ws c digit_not_special [of c] by (simp add: skip_ws_append)
    have sc: "scan_number (c # r @ rest) = Some (?tok, rest)"
      using scan_number_literal [OF num_ok_literal [OF ok] stop] tok by simp
    have "parse_value h (Suc n') (ws @ c # r @ rest) = Some (JNumber (StringToNumber h ?tok), rest)" for n'
      by (rule pv_number [OF sk c sc])
    with ok tok JNumber show ?thesis by (simp add: num_ok_def)
  next
    case (JString s)
    have "skip_ws (ws @ 0x22 # quote_chars s @ 0x22 # rest) = 0x22 # quote_chars s @ 0x22 # rest"
      using ws by (simp add: skip_ws_append is_ws_def)
    then have "parse_value h (Suc n) (ws @ 0x22 # quote_chars s @ 0x22 # rest) = Some (JString s, rest)"
      by (rule pv_string) (rule parse_quote_chars)
    with JString show ?thesis by (simp add: QuoteJSONString_def)
  next
    case (JArray xs)
    with assms show ?thesis by simp
  next
    case (JObject kvs)
    with assms show ?thesis by simp
  qed
  then have "\<forall>m \<ge> Suc 0. parse_value h m (ws @ SerializeJSONProperty h ind v @ rest) = Some (v, rest)"
    by (metis Suc_le_D)
  then show "\<exists>N. \<forall>m \<ge> N. parse_value h m (ws @ SerializeJSONProperty h ind v @ rest) = Some (v, rest)"
    by blast
qed


lemma join_Cons: "ss \<noteq> [] \<Longrightarrow> join sep (a # ss) = a @ sep @ join sep ss"
  by (cases ss) simp_all

lemma threshold_Suc:
  "(\<And>m. N \<le> m \<Longrightarrow> f (Suc m) = r) \<Longrightarrow> \<exists>N'. \<forall>m \<ge> N'. f m = r"
proof
  assume a: "\<And>m. N \<le> m \<Longrightarrow> f (Suc m) = r"
  show "\<forall>m \<ge> Suc N. f m = r"
  proof (intro allI impI)
    fix m assume "Suc N \<le> m"
    then obtain m' where "m = Suc m'" "N \<le> m'" by (cases m) auto
    with a show "f m = r" by simp
  qed
qed

lemma reads_back_elements:
  assumes "xs \<noteq> []" and "\<And>x. x \<in> set xs \<Longrightarrow> reads_back h x" and "list_all is_ws ind"
    and "list_all is_ws ind'" and "list_all is_ws ws"
  shows "\<exists>N. \<forall>m \<ge> N. parse_elements h m acc
           (ws @ join ([0x2C, 0x0A] @ ind') (map (SerializeJSONProperty h ind') xs)
               @ [0x0A] @ ind @ [0x5D] @ rest)
         = Some (JArray (acc @ xs), rest)"
  using assms(1,2,5)
proof (induction xs arbitrary: acc ws rule: list_nonempty_induct)
  case (single x)
  let ?R = "0x0A # ind @ 0x5D # rest"
  from single have x: "reads_back h x" by simp
  from reads_backD [OF x assms(4) single(2) number_stop_sep(2), of "ind @ 0x5D # rest"] obtain N
    where N: "\<And>m. N \<le> m \<Longrightarrow> parse_value h m (ws @ SerializeJSONProperty h ind' x @ ?R) = Some (x, ?R)"
    by blast
  have sk: "skip_ws ?R = 0x5D # rest"
    using skip_ws_append [of "0x0A # ind" "0x5D" rest] assms(3) by (simp add: is_ws_def)
  have "parse_elements h (Suc m) acc (ws @ SerializeJSONProperty h ind' x @ ?R)
      = Some (JArray (acc @ [x]), rest)" if "N \<le> m" for m
    by (rule pe_last [OF N [OF that] sk])
  then have "\<exists>N'. \<forall>m \<ge> N'. parse_elements h m acc (ws @ SerializeJSONProperty h ind' x @ ?R)
      = Some (JArray (acc @ [x]), rest)"
    by (rule threshold_Suc)
  then show ?case by simp
next
  case (cons x xs)
  let ?J = "join ([0x2C, 0x0A] @ ind') (map (SerializeJSONProperty h ind') xs) @ [0x0A] @ ind @ [0x5D] @ rest"
  let ?R = "0x2C # 0x0A # ind' @ ?J"
  from cons.prems have x: "reads_back h x" by simp
  from reads_backD [OF x assms(4) cons.prems(2) number_stop_sep(1), of "0x0A # ind' @ ?J"] obtain N1
    where N1: "\<And>m. N1 \<le> m \<Longrightarrow> parse_value h m (ws @ SerializeJSONProperty h ind' x @ ?R) = Some (x, ?R)"
    by blast
  have sk: "skip_ws ?R = 0x2C # (0x0A # ind') @ ?J"
    by (simp add: skip_ws_Cons is_ws_def)
  have "list_all is_ws (0x0A # ind')" using assms(4) by (simp add: is_ws_def)
  with cons.IH [of "0x0A # ind'" "acc @ [x]"] cons.prems obtain N2
    where N2: "\<And>m. N2 \<le> m \<Longrightarrow> parse_elements h m (acc @ [x]) ((0x0A # ind') @ ?J)
        = Some (JArray ((acc @ [x]) @ xs), rest)"
    by auto
  have "parse_elements h (Suc m) acc (ws @ SerializeJSONProperty h ind' x @ ?R)
      = Some (JArray (acc @ x # xs), rest)" if "max N1 N2 \<le> m" for m
  proof -
    from that have "N1 \<le> m" "N2 \<le> m" by simp_all
    from pe_more [OF N1 [OF this(1)] sk] N2 [OF this(2)] show ?thesis by simp
  qed
  then have "\<exists>N'. \<forall>m \<ge> N'. parse_elements h m acc (ws @ SerializeJSONProperty h ind' x @ ?R)
      = Some (JArray (acc @ x # xs), rest)"
    by (rule threshold_Suc)
  with cons.hyps show ?case by (simp add: join_Cons)
qed

lemma reads_back_array:
  assumes "\<And>x. x \<in> set xs \<Longrightarrow> reads_back h x" and "list_all (numbers_ok h) xs"
  shows "reads_back h (JArray xs)"
  unfolding reads_back_def
proof (intro allI impI)
  fix ind ws rest :: jsstring
  assume ind: "list_all is_ws ind" and ws: "list_all is_ws ws"
  show "\<exists>N. \<forall>m \<ge> N. parse_value h m (ws @ SerializeJSONProperty h ind (JArray xs) @ rest)
      = Some (JArray xs, rest)"
  proof (cases "xs = []")
    case True
    have 1: "skip_ws (ws @ 0x5B # 0x5D # rest) = 0x5B # 0x5D # rest"
      using ws by (simp add: skip_ws_append is_ws_def)
    have 2: "skip_ws (0x5D # rest) = 0x5D # rest" by (simp add: skip_ws_Cons is_ws_def)
    have "parse_value h (Suc m) (ws @ 0x5B # 0x5D # rest) = Some (JArray [], rest)" if "0 \<le> m" for m
      by (rule pv_array_empty [OF 1 2])
    then have "\<exists>N'. \<forall>m \<ge> N'. parse_value h m (ws @ 0x5B # 0x5D # rest) = Some (JArray [], rest)"
      by (rule threshold_Suc)
    with True show ?thesis by (simp add: str_brackets)
  next
    case False
    let ?ind = "ind @ str ''  ''"
    let ?J = "join ([0x2C, 0x0A] @ ?ind) (map (SerializeJSONProperty h ?ind) xs) @ [0x0A] @ ind @ [0x5D] @ rest"
    have ind': "list_all is_ws ?ind" using ind by (simp add: str_indent is_ws_def)
    then have nl: "list_all is_ws (0x0A # ?ind)" by (simp add: is_ws_def)
    from False obtain x xs' where xs: "xs = x # xs'" by (cases xs) auto
    with assms(2) have "numbers_ok h x" by simp
    from ser_start [OF this, of ?ind] obtain c r
      where c: "SerializeJSONProperty h ?ind x = c # r" "\<not> is_ws c" "c \<noteq> 0x5D" by blast
    then obtain r' where J: "?J = c # r'"
      by (cases xs') (simp_all add: xs)
    have 1: "skip_ws (ws @ 0x5B # (0x0A # ?ind) @ ?J) = 0x5B # (0x0A # ?ind) @ ?J"
      using ws by (simp add: skip_ws_append is_ws_def)
    have 2: "skip_ws ((0x0A # ?ind) @ ?J) = c # r'"
      unfolding J using nl c(2) by (rule skip_ws_append)
    from reads_back_elements [OF False assms(1) ind ind' nl, of "[]" rest] obtain N
      where N: "\<And>m. N \<le> m \<Longrightarrow> parse_elements h m [] ((0x0A # ?ind) @ ?J) = Some (JArray xs, rest)"
      by auto
    have "parse_value h (Suc m) (ws @ 0x5B # (0x0A # ?ind) @ ?J) = Some (JArray xs, rest)"
      if "N \<le> m" for m
      using pv_array [OF 1 2 c(3), of h m] N [OF that] by simp
    then have "\<exists>N'. \<forall>m \<ge> N'. parse_value h m (ws @ 0x5B # (0x0A # ?ind) @ ?J) = Some (JArray xs, rest)"
      by (rule threshold_Suc)
    with False show ?thesis by simp
  qed
qed


lemma key_order_prefix: "key_order_ok (xs @ ys) \<Longrightarrow> key_order_ok xs"
proof (induction xs rule: key_order_ok.induct)
  case (1 k1 k2 ks)
  then show ?case by simp
qed simp_all

lemma define_prop_next:
  assumes "distinct (map fst (acc @ kv # kvs))" and "key_order_ok (map fst (acc @ kv # kvs))"
  shows "define_prop (fst kv) (snd kv) acc = acc @ [kv]"
proof -
  from assms(1) have "fst kv \<notin> set (map fst acc)" by auto
  moreover have "key_order_ok (map fst acc @ [fst kv])"
    using key_order_prefix [of "map fst acc @ [fst kv]" "map fst kvs"] assms(2) by simp
  ultimately show ?thesis using define_prop_append [of "fst kv" acc "snd kv"] by simp
qed

lemma reads_back_members:
  assumes "kvs \<noteq> []" and "\<And>kv. kv \<in> set kvs \<Longrightarrow> reads_back h (snd kv)"
    and "list_all is_ws ind" and "list_all is_ws ind'" and "list_all is_ws ws"
    and "distinct (map fst (acc @ kvs))" and "key_order_ok (map fst (acc @ kvs))"
  shows "\<exists>N. \<forall>m \<ge> N. parse_members h m acc
           (ws @ join ([0x2C, 0x0A] @ ind')
                   (map (\<lambda>kv. QuoteJSONString (fst kv) @ str '': ''
                           @ SerializeJSONProperty h ind' (snd kv)) kvs)
               @ [0x0A] @ ind @ [0x7D] @ rest)
         = Some (JObject (acc @ kvs), rest)"
  using assms(1,2,5,6,7)
proof (induction kvs arbitrary: acc ws rule: list_nonempty_induct)
  case (single kv)
  let ?R = "0x0A # ind @ 0x7D # rest"
  let ?V = "SerializeJSONProperty h ind' (snd kv)"
  from single have v: "reads_back h (snd kv)" by simp
  have sp: "list_all is_ws [0x20]" by (simp add: is_ws_def)
  from reads_backD [OF v assms(4) sp number_stop_sep(2), of "ind @ 0x7D # rest"] obtain N
    where N: "\<And>m. N \<le> m \<Longrightarrow> parse_value h m ([0x20] @ ?V @ ?R) = Some (snd kv, ?R)"
    by blast
  have 1: "skip_ws (ws @ 0x22 # quote_chars (fst kv) @ 0x22 # 0x3A # [0x20] @ ?V @ ?R)
      = 0x22 # quote_chars (fst kv) @ 0x22 # 0x3A # [0x20] @ ?V @ ?R"
    by (rule skip_ws_append [OF single(2)]) (simp add: is_ws_def)
  have 2: "parse_string_chars (quote_chars (fst kv) @ 0x22 # 0x3A # [0x20] @ ?V @ ?R)
      = Some (fst kv, 0x3A # [0x20] @ ?V @ ?R)"
    by (rule parse_quote_chars)
  have 3: "skip_ws (0x3A # [0x20] @ ?V @ ?R) = 0x3A # [0x20] @ ?V @ ?R"
    by (simp add: skip_ws_Cons is_ws_def)
  have 4: "skip_ws ?R = 0x7D # rest"
    using skip_ws_append [of "0x0A # ind" "0x7D" rest] assms(3) by (simp add: is_ws_def)
  have dp: "define_prop (fst kv) (snd kv) acc = acc @ [kv]"
    using define_prop_next [of acc kv "[]"] single by simp
  have "parse_members h (Suc m) acc
      (ws @ 0x22 # quote_chars (fst kv) @ 0x22 # 0x3A # [0x20] @ ?V @ ?R)
      = Some (JObject (acc @ [kv]), rest)" if "N \<le> m" for m
    using pm_last [OF 1 2 3 N [OF that] 4, of acc] dp by simp
  then have "\<exists>N'. \<forall>m \<ge> N'. parse_members h m acc
      (ws @ 0x22 # quote_chars (fst kv) @ 0x22 # 0x3A # [0x20] @ ?V @ ?R)
      = Some (JObject (acc @ [kv]), rest)"
    by (rule threshold_Suc)
  then show ?case by (simp add: QuoteJSONString_def str_colon)
next
  case (cons kv kvs)
  let ?J = "join ([0x2C, 0x0A] @ ind')
      (map (\<lambda>kv. QuoteJSONString (fst kv) @ str '': '' @ SerializeJSONProperty h ind' (snd kv)) kvs)
      @ [0x0A] @ ind @ [0x7D] @ rest"
  let ?R = "0x2C # (0x0A # ind') @ ?J"
  let ?V = "SerializeJSONProperty h ind' (snd kv)"
  from cons.prems have v: "reads_back h (snd kv)" by simp
  have sp: "list_all is_ws [0x20]" by (simp add: is_ws_def)
  from reads_backD [OF v assms(4) sp number_stop_sep(1), of "(0x0A # ind') @ ?J"] obtain N1
    where N1: "\<And>m. N1 \<le> m \<Longrightarrow> parse_value h m ([0x20] @ ?V @ ?R) = Some (snd kv, ?R)"
    by blast
  have 1: "skip_ws (ws @ 0x22 # quote_chars (fst kv) @ 0x22 # 0x3A # [0x20] @ ?V @ ?R)
      = 0x22 # quote_chars (fst kv) @ 0x22 # 0x3A # [0x20] @ ?V @ ?R"
    by (rule skip_ws_append [OF cons.prems(2)]) (simp add: is_ws_def)
  have 2: "parse_string_chars (quote_chars (fst kv) @ 0x22 # 0x3A # [0x20] @ ?V @ ?R)
      = Some (fst kv, 0x3A # [0x20] @ ?V @ ?R)"
    by (rule parse_quote_chars)
  have 3: "skip_ws (0x3A # [0x20] @ ?V @ ?R) = 0x3A # [0x20] @ ?V @ ?R"
    by (simp add: skip_ws_Cons is_ws_def)
  have 4: "skip_ws ?R = 0x2C # (0x0A # ind') @ ?J"
    by (simp add: skip_ws_Cons is_ws_def)
  have dp: "define_prop (fst kv) (snd kv) acc = acc @ [kv]"
    using define_prop_next [of acc kv kvs] cons.prems by simp
  have nl: "list_all is_ws (0x0A # ind')" using assms(4) by (simp add: is_ws_def)
  from cons.IH [of "0x0A # ind'" "acc @ [kv]"] cons.prems nl obtain N2
    where N2: "\<And>m. N2 \<le> m \<Longrightarrow> parse_members h m (acc @ [kv]) ((0x0A # ind') @ ?J)
        = Some (JObject ((acc @ [kv]) @ kvs), rest)"
    by auto
  have "parse_members h (Suc m) acc
      (ws @ 0x22 # quote_chars (fst kv) @ 0x22 # 0x3A # [0x20] @ ?V @ ?R)
      = Some (JObject (acc @ kv # kvs), rest)" if "max N1 N2 \<le> m" for m
  proof -
    from that have "N1 \<le> m" "N2 \<le> m" by simp_all
    from pm_more [OF 1 2 3 N1 [OF this(1)] 4, of acc] N2 [OF this(2)] dp show ?thesis by simp
  qed
  then have "\<exists>N'. \<forall>m \<ge> N'. parse_members h m acc
      (ws @ 0x22 # quote_chars (fst kv) @ 0x22 # 0x3A # [0x20] @ ?V @ ?R)
      = Some (JObject (acc @ kv # kvs), rest)"
    by (rule threshold_Suc)
  with cons.hyps show ?case by (simp add: join_Cons QuoteJSONString_def str_colon)
qed

lemma reads_back_object:
  assumes "\<And>kv. kv \<in> set kvs \<Longrightarrow> reads_back h (snd kv)"
    and "distinct (map fst kvs)" and "key_order_ok (map fst kvs)"
  shows "reads_back h (JObject kvs)"
  unfolding reads_back_def
proof (intro allI impI)
  fix ind ws rest :: jsstring
  assume ind: "list_all is_ws ind" and ws: "list_all is_ws ws"
  show "\<exists>N. \<forall>m \<ge> N. parse_value h m (ws @ SerializeJSONProperty h ind (JObject kvs) @ rest)
      = Some (JObject kvs, rest)"
  proof (cases "kvs = []")
    case True
    have 1: "skip_ws (ws @ 0x7B # 0x7D # rest) = 0x7B # 0x7D # rest"
      using ws by (simp add: skip_ws_append is_ws_def)
    have 2: "skip_ws (0x7D # rest) = 0x7D # rest" by (simp add: skip_ws_Cons is_ws_def)
    have "parse_value h (Suc m) (ws @ 0x7B # 0x7D # rest) = Some (JObject [], rest)" if "0 \<le> m" for m
      by (rule pv_object_empty [OF 1 2])
    then have "\<exists>N'. \<forall>m \<ge> N'. parse_value h m (ws @ 0x7B # 0x7D # rest) = Some (JObject [], rest)"
      by (rule threshold_Suc)
    with True show ?thesis by (simp add: str_braces)
  next
    case False
    let ?ind = "ind @ str ''  ''"
    let ?J = "join ([0x2C, 0x0A] @ ?ind)
        (map (\<lambda>kv. QuoteJSONString (fst kv) @ str '': '' @ SerializeJSONProperty h ?ind (snd kv)) kvs)
        @ [0x0A] @ ind @ [0x7D] @ rest"
    have ind': "list_all is_ws ?ind" using ind by (simp add: str_indent is_ws_def)
    then have nl: "list_all is_ws (0x0A # ?ind)" by (simp add: is_ws_def)
    from False obtain kv kvs' where kvs: "kvs = kv # kvs'" by (cases kvs) auto
    then obtain r' where J: "?J = 0x22 # r'"
      by (cases kvs') (simp_all add: QuoteJSONString_def)
    have 1: "skip_ws (ws @ 0x7B # (0x0A # ?ind) @ ?J) = 0x7B # (0x0A # ?ind) @ ?J"
      using ws by (simp add: skip_ws_append is_ws_def)
    have 2: "skip_ws ((0x0A # ?ind) @ ?J) = 0x22 # r'"
      unfolding J using nl by (rule skip_ws_append) (simp add: is_ws_def)
    from reads_back_members [OF False assms(1) ind ind' nl, of "[]" rest] assms(2,3) obtain N
      where N: "\<And>m. N \<le> m \<Longrightarrow> parse_members h m [] ((0x0A # ?ind) @ ?J) = Some (JObject kvs, rest)"
      by auto
    have "parse_value h (Suc m) (ws @ 0x7B # (0x0A # ?ind) @ ?J) = Some (JObject kvs, rest)"
      if "N \<le> m" for m
      using pv_object [OF 1 2, of h m] N [OF that] by simp
    then have "\<exists>N'. \<forall>m \<ge> N'. parse_value h m (ws @ 0x7B # (0x0A # ?ind) @ ?J) = Some (JObject kvs, rest)"
      by (rule threshold_Suc)
    with False show ?thesis by simp
  qed
qed

lemma reads_back_all: "wf_value v \<Longrightarrow> numbers_ok h v \<Longrightarrow> reads_back h v"
proof (induction v)
  case (JArray xs)
  show ?case
  proof (rule reads_back_array)
    fix x assume "x \<in> set xs"
    with JArray show "reads_back h x" by (simp add: list_all_iff)
  next
    from JArray.prems show "list_all (numbers_ok h) xs" by simp
  qed
next
  case (JObject kvs)
  show ?case
  proof (rule reads_back_object)
    fix kv assume kv: "kv \<in> set kvs"
    moreover have "snd kv \<in> Basic_BNFs.snds kv" by (cases kv) simp
    ultimately show "reads_back h (snd kv)"
      using JObject by (simp add: list_all_iff)
  next
    from JObject.prems show "distinct (map fst kvs)" "key_order_ok (map fst kvs)" by simp_all
  qed
qed (simp_all add: reads_back_leaf)

subsection \<open>Fuel\<close>

lemma cons_result_Some:
  "cons_result c x = Some (s, r) \<longleftrightarrow> (\<exists>s'. x = Some (s', r) \<and> s = c # s')"
  by (cases x) (auto simp: cons_result_def)

lemma parse_string_len: "parse_string_chars cs = Some (s, r) \<Longrightarrow> length r < length cs"
proof (induction cs arbitrary: s r rule: length_induct)
  case (1 cs)
  note IH = 1(1) [rule_format]
  from 1(2) obtain c cs' where cs: "cs = c # cs'" by (cases cs) auto
  consider "c = 0x22" | "c = 0x5C" | "c \<noteq> 0x22" "c \<noteq> 0x5C"
    by blast
  then show ?case
  proof cases
    case 1
    with cs \<open>parse_string_chars cs = Some (s, r)\<close> show ?thesis
      by (simp add: parse_string_chars.simps)
  next
    case 2
    with cs \<open>parse_string_chars cs = Some (s, r)\<close>
    obtain e r0 where e: "cs' = e # r0" by (cases cs') (auto simp: parse_string_chars.simps)
    show ?thesis
    proof (cases "e = 0x75")
      case True
      with 2 cs e \<open>parse_string_chars cs = Some (s, r)\<close>
      obtain s' where "parse_string_chars (drop 4 r0) = Some (s', r)"
        by (auto simp: parse_string_chars.simps cons_result_Some split: if_splits option.splits)
      moreover have "length (drop 4 r0) < length cs" using cs e by simp
      ultimately have "length r < length (drop 4 r0)" using IH by blast
      then show ?thesis using cs e by simp
    next
      case False
      with 2 cs e \<open>parse_string_chars cs = Some (s, r)\<close>
      obtain s' where "parse_string_chars r0 = Some (s', r)"
        by (auto simp: parse_string_chars.simps cons_result_Some split: if_splits option.splits)
      moreover have "length r0 < length cs" using cs e by simp
      ultimately have "length r < length r0" using IH by blast
      then show ?thesis using cs e by simp
    qed
  next
    case 3
    with cs \<open>parse_string_chars cs = Some (s, r)\<close>
    obtain s' where "parse_string_chars cs' = Some (s', r)"
      by (auto simp: parse_string_chars.simps cons_result_Some split: if_splits)
    moreover have "length cs' < length cs" using cs by simp
    ultimately have "length r < length cs'" using IH by blast
    then show ?thesis using cs by simp
  qed
qed


lemma scan_int_split: "scan_int cs = Some (ip, r) \<Longrightarrow> cs = ip @ r \<and> ip \<noteq> []"
  by (cases cs) (auto simp: scan_int_def split: if_splits)

lemma scan_fraction_split: "scan_fraction cs = Some (fr, r) \<Longrightarrow> cs = fr @ r"
  by (cases cs) (auto simp: scan_fraction_def split: if_splits)

lemma scan_exponent_split: "scan_exponent cs = Some (ex, r) \<Longrightarrow> cs = ex @ r"
proof (cases cs)
  case Nil
  assume "scan_exponent cs = Some (ex, r)"
  with Nil show ?thesis by (simp add: scan_exponent_def)
next
  case (Cons c r0)
  assume a: "scan_exponent cs = Some (ex, r)"
  show ?thesis
  proof (cases "c = 0x65 \<or> c = 0x45")
    case True
    define sg where "sg = (if take 1 r0 = [0x2B] \<or> take 1 r0 = [0x2D] then take 1 r0 else [])"
    have "sg @ drop (length sg) r0 = r0"
      by (cases r0) (auto simp: sg_def)
    moreover from True a Cons have "r = dropWhile is_digit (drop (length sg) r0)"
        "ex = c # sg @ takeWhile is_digit (drop (length sg) r0)"
      by (auto simp: scan_exponent_def sg_def Let_def split: if_splits)
    ultimately show ?thesis using Cons
      by (metis append_Cons append_assoc takeWhile_dropWhile_id)
  next
    case False
    with a Cons show ?thesis by (auto simp: scan_exponent_def)
  qed
qed

lemma scan_unsigned_split: "scan_unsigned cs = Some (tok, r) \<Longrightarrow> cs = tok @ r \<and> tok \<noteq> []"
  by (auto simp: scan_unsigned_def split: option.splits
      dest!: scan_int_split scan_fraction_split scan_exponent_split)

lemma scan_number_split: "scan_number cs = Some (tok, r) \<Longrightarrow> cs = tok @ r \<and> tok \<noteq> []"
  by (cases cs) (auto simp: scan_number_def split: if_splits dest!: scan_unsigned_split)

lemma parse_scalar_len: "parse_scalar h cs = Some (v, r) \<Longrightarrow> length r < length cs"
proof (cases cs)
  case Nil
  assume "parse_scalar h cs = Some (v, r)"
  with Nil show ?thesis by (simp add: parse_scalar_def)
next
  case (Cons c r0)
  assume a: "parse_scalar h cs = Some (v, r)"
  consider "c = 0x22" | "c \<noteq> 0x22" "c = 0x2D \<or> is_digit c" | "c \<noteq> 0x22" "\<not> (c = 0x2D \<or> is_digit c)"
    by blast
  then show ?thesis
  proof cases
    case 1
    with a Cons obtain s where "parse_string_chars r0 = Some (s, r)"
      by (auto simp: parse_scalar_def)
    from parse_string_len [OF this] Cons show ?thesis by simp
  next
    case 2
    with a Cons obtain tok where "scan_number cs = Some (tok, r)"
      by (auto simp: parse_scalar_def)
    from scan_number_split [OF this] show ?thesis by (cases tok) auto
  next
    case 3
    with a Cons show ?thesis
      by (auto simp: parse_scalar_def split: if_splits)
  qed
qed

lemma skip_ws_Cons_len: "skip_ws cs = c # r \<Longrightarrow> length r < length cs"
  using length_skip_ws [of cs] by simp


lemma pv_unfold:
  "skip_ws cs = c # r0 \<Longrightarrow>
   parse_value h (Suc n) cs =
     (if c = 0x7B then
        (if take 1 (skip_ws r0) = [0x7D] then Some (JObject [], drop 1 (skip_ws r0))
         else parse_members h n [] r0)
      else if c = 0x5B then
        (if take 1 (skip_ws r0) = [0x5D] then Some (JArray [], drop 1 (skip_ws r0))
         else parse_elements h n [] r0)
      else parse_scalar h (c # r0))"
  by (simp add: parse_value.simps(2))

lemma pv_Nil: "skip_ws cs = [] \<Longrightarrow> parse_value h n cs = None"
  by (cases n) (simp_all add: parse_value.simps(2))

lemma fuel_Suc:
  "2 * (a - b) \<le> m \<Longrightarrow> b < a \<Longrightarrow> \<exists>m'. m = Suc m' \<and> 2 * (a - b) - 1 \<le> m'"
  by (cases m) auto

lemma pv_fuel_step:
  assumes E: "\<And>acc cs v r. parse_elements h n acc cs = Some (v, r) \<Longrightarrow>
        length r < length cs \<and> (\<forall>m \<ge> 2 * (length cs - length r). parse_elements h m acc cs = Some (v, r))"
    and M: "\<And>acc cs v r. parse_members h n acc cs = Some (v, r) \<Longrightarrow>
        length r < length cs \<and> (\<forall>m \<ge> 2 * (length cs - length r). parse_members h m acc cs = Some (v, r))"
    and a: "parse_value h (Suc n) cs = Some (v, r)"
  shows "length r < length cs \<and> (\<forall>m \<ge> 2 * (length cs - length r). parse_value h m cs = Some (v, r))"
proof -
  from a obtain c r0 where sk: "skip_ws cs = c # r0"
    by (cases "skip_ws cs") (simp_all add: pv_Nil)
  note u = pv_unfold [OF sk, of h n]
  from sk have l0: "length r0 < length cs" by (rule skip_ws_Cons_len)
  have l1: "length (drop 1 (skip_ws r0)) < length cs"
    using length_skip_ws [of r0] l0 by simp
  consider (oe) "c = 0x7B" "take 1 (skip_ws r0) = [0x7D]"
    | (om) "c = 0x7B" "take 1 (skip_ws r0) \<noteq> [0x7D]"
    | (ae) "c \<noteq> 0x7B" "c = 0x5B" "take 1 (skip_ws r0) = [0x5D]"
    | (am) "c \<noteq> 0x7B" "c = 0x5B" "take 1 (skip_ws r0) \<noteq> [0x5D]"
    | (sc) "c \<noteq> 0x7B" "c \<noteq> 0x5B"
    by blast
  then show ?thesis
  proof cases
    case oe
    with a u have r: "v = JObject []" "r = drop 1 (skip_ws r0)" by simp_all
    have "parse_value h m cs = Some (v, r)" if "2 * (length cs - length r) \<le> m" for m
    proof -
      from fuel_Suc [OF that] r l1 obtain m' where "m = Suc m'" by auto
      with oe r show ?thesis by (simp add: pv_unfold [OF sk, of h])
    qed
    with r l1 show ?thesis by simp
  next
    case om
    with a u have p: "parse_members h n [] r0 = Some (v, r)" by simp
    from M [OF p] have l: "length r < length r0"
      and f: "\<And>m. 2 * (length r0 - length r) \<le> m \<Longrightarrow> parse_members h m [] r0 = Some (v, r)"
      by simp_all
    have "parse_value h m cs = Some (v, r)" if "2 * (length cs - length r) \<le> m" for m
    proof -
      from fuel_Suc [OF that] l l0 obtain m' where m': "m = Suc m'" "2 * (length cs - length r) - 1 \<le> m'"
        by auto
      with l l0 have "2 * (length r0 - length r) \<le> m'" by simp
      from f [OF this] m' om show ?thesis by (simp add: pv_unfold [OF sk, of h])
    qed
    with l l0 show ?thesis by simp
  next
    case ae
    with a u have r: "v = JArray []" "r = drop 1 (skip_ws r0)" by simp_all
    have "parse_value h m cs = Some (v, r)" if "2 * (length cs - length r) \<le> m" for m
    proof -
      from fuel_Suc [OF that] r l1 obtain m' where "m = Suc m'" by auto
      with ae r show ?thesis by (simp add: pv_unfold [OF sk, of h])
    qed
    with r l1 show ?thesis by simp
  next
    case am
    with a u have p: "parse_elements h n [] r0 = Some (v, r)" by simp
    from E [OF p] have l: "length r < length r0"
      and f: "\<And>m. 2 * (length r0 - length r) \<le> m \<Longrightarrow> parse_elements h m [] r0 = Some (v, r)"
      by simp_all
    have "parse_value h m cs = Some (v, r)" if "2 * (length cs - length r) \<le> m" for m
    proof -
      from fuel_Suc [OF that] l l0 obtain m' where m': "m = Suc m'" "2 * (length cs - length r) - 1 \<le> m'"
        by auto
      with l l0 have "2 * (length r0 - length r) \<le> m'" by simp
      from f [OF this] m' am show ?thesis by (simp add: pv_unfold [OF sk, of h])
    qed
    with l l0 show ?thesis by simp
  next
    case sc
    with a u have p: "parse_scalar h (c # r0) = Some (v, r)" by simp
    from parse_scalar_len [OF p] l0 have l: "length r < length cs" by simp
    have "parse_value h m cs = Some (v, r)" if "2 * (length cs - length r) \<le> m" for m
    proof -
      from fuel_Suc [OF that l] obtain m' where "m = Suc m'" by auto
      with sc p show ?thesis by (simp add: pv_unfold [OF sk, of h])
    qed
    with l show ?thesis by simp
  qed
qed


lemma pe_unfold:
  "parse_value h n cs = Some (x, r1) \<Longrightarrow> skip_ws r1 = c # r2 \<Longrightarrow>
   parse_elements h (Suc n) acc cs =
     (if c = 0x2C then parse_elements h n (acc @ [x]) r2
      else if c = 0x5D then Some (JArray (acc @ [x]), r2)
      else None)"
  by (simp add: parse_elements.simps(2))

lemma pe_inv:
  "parse_elements h (Suc n) acc cs = Some (v, r) \<Longrightarrow>
   \<exists>x r1 c r2. parse_value h n cs = Some (x, r1) \<and> skip_ws r1 = c # r2"
  by (auto simp: parse_elements.simps(2) split: option.splits list.splits)

lemma pe_fuel_step:
  assumes V: "\<And>cs v r. parse_value h n cs = Some (v, r) \<Longrightarrow>
        length r < length cs \<and> (\<forall>m \<ge> 2 * (length cs - length r). parse_value h m cs = Some (v, r))"
    and E: "\<And>acc cs v r. parse_elements h n acc cs = Some (v, r) \<Longrightarrow>
        length r < length cs \<and> (\<forall>m \<ge> 2 * (length cs - length r). parse_elements h m acc cs = Some (v, r))"
    and a: "parse_elements h (Suc n) acc cs = Some (v, r)"
  shows "length r < length cs \<and> (\<forall>m \<ge> 2 * (length cs - length r). parse_elements h m acc cs = Some (v, r))"
proof -
  from pe_inv [OF a] obtain x r1 c r2
    where x: "parse_value h n cs = Some (x, r1)" and sk: "skip_ws r1 = c # r2" by blast
  from V [OF x] have l1: "length r1 < length cs"
    and f1: "\<And>m. 2 * (length cs - length r1) \<le> m \<Longrightarrow> parse_value h m cs = Some (x, r1)"
    by simp_all
  from sk have l2: "length r2 < length r1" by (rule skip_ws_Cons_len)
  consider (more) "c = 0x2C" | (last) "c \<noteq> 0x2C" "c = 0x5D" | (bad) "c \<noteq> 0x2C" "c \<noteq> 0x5D"
    by blast
  then show ?thesis
  proof cases
    case more
    with a pe_unfold [OF x sk, of acc] have p: "parse_elements h n (acc @ [x]) r2 = Some (v, r)"
      by simp
    from E [OF p] have l: "length r < length r2"
      and f: "\<And>m. 2 * (length r2 - length r) \<le> m \<Longrightarrow> parse_elements h m (acc @ [x]) r2 = Some (v, r)"
      by simp_all
    have "parse_elements h m acc cs = Some (v, r)" if "2 * (length cs - length r) \<le> m" for m
    proof -
      from l l1 l2 have lt: "length r < length cs" by simp
      from fuel_Suc [OF that lt] obtain m' where m': "m = Suc m'" "2 * (length cs - length r) - 1 \<le> m'"
        by auto
      with l l1 l2 have "2 * (length cs - length r1) \<le> m'" "2 * (length r2 - length r) \<le> m'"
        by simp_all
      from pe_unfold [OF f1 [OF this(1)] sk, of acc] f [OF this(2)] m' more show ?thesis by simp
    qed
    with l l1 l2 show ?thesis by simp
  next
    case last
    with a pe_unfold [OF x sk, of acc] have r: "v = JArray (acc @ [x])" "r = r2" by simp_all
    have "parse_elements h m acc cs = Some (v, r)" if "2 * (length cs - length r) \<le> m" for m
    proof -
      from r l1 l2 have lt: "length r < length cs" by simp
      from fuel_Suc [OF that lt] obtain m' where m': "m = Suc m'" "2 * (length cs - length r) - 1 \<le> m'"
        by auto
      with r l1 l2 have "2 * (length cs - length r1) \<le> m'" by simp
      from pe_unfold [OF f1 [OF this] sk, of acc] m' last r show ?thesis by simp
    qed
    with r l1 l2 show ?thesis by simp
  next
    case bad
    with a pe_unfold [OF x sk, of acc] show ?thesis by simp
  qed
qed

lemma pm_unfold:
  "skip_ws cs = 0x22 # r0 \<Longrightarrow> parse_string_chars r0 = Some (k, r1) \<Longrightarrow> skip_ws r1 = 0x3A # r2 \<Longrightarrow>
   parse_value h n r2 = Some (x, r3) \<Longrightarrow> skip_ws r3 = c # r4 \<Longrightarrow>
   parse_members h (Suc n) acc cs =
     (if c = 0x2C then parse_members h n (define_prop k x acc) r4
      else if c = 0x7D then Some (JObject (define_prop k x acc), r4)
      else None)"
  by (simp add: parse_members.simps(2))

lemma pm_inv:
  "parse_members h (Suc n) acc cs = Some (v, r) \<Longrightarrow>
   \<exists>r0 k r1 r2 x r3 c r4. skip_ws cs = 0x22 # r0 \<and> parse_string_chars r0 = Some (k, r1) \<and>
      skip_ws r1 = 0x3A # r2 \<and> parse_value h n r2 = Some (x, r3) \<and> skip_ws r3 = c # r4"
  by (auto simp: parse_members.simps(2) split: option.splits list.splits if_splits)

lemma pm_fuel_step:
  assumes V: "\<And>cs v r. parse_value h n cs = Some (v, r) \<Longrightarrow>
        length r < length cs \<and> (\<forall>m \<ge> 2 * (length cs - length r). parse_value h m cs = Some (v, r))"
    and M: "\<And>acc cs v r. parse_members h n acc cs = Some (v, r) \<Longrightarrow>
        length r < length cs \<and> (\<forall>m \<ge> 2 * (length cs - length r). parse_members h m acc cs = Some (v, r))"
    and a: "parse_members h (Suc n) acc cs = Some (v, r)"
  shows "length r < length cs \<and> (\<forall>m \<ge> 2 * (length cs - length r). parse_members h m acc cs = Some (v, r))"
proof -
  from pm_inv [OF a] obtain r0 k r1 r2 x r3 c r4
    where s0: "skip_ws cs = 0x22 # r0" and k: "parse_string_chars r0 = Some (k, r1)"
      and s1: "skip_ws r1 = 0x3A # r2" and x: "parse_value h n r2 = Some (x, r3)"
      and s3: "skip_ws r3 = c # r4"
    by blast
  note u = pm_unfold [OF s0 k s1 _ s3]
  from V [OF x] have l3: "length r3 < length r2"
    and f1: "\<And>m. 2 * (length r2 - length r3) \<le> m \<Longrightarrow> parse_value h m r2 = Some (x, r3)"
    by simp_all
  have l2: "length r2 < length cs"
    using skip_ws_Cons_len [OF s0] parse_string_len [OF k] skip_ws_Cons_len [OF s1] by simp
  from s3 have l4: "length r4 < length r3" by (rule skip_ws_Cons_len)
  consider (more) "c = 0x2C" | (last) "c \<noteq> 0x2C" "c = 0x7D" | (bad) "c \<noteq> 0x2C" "c \<noteq> 0x7D"
    by blast
  then show ?thesis
  proof cases
    case more
    with a u [OF x, of acc] have p: "parse_members h n (define_prop k x acc) r4 = Some (v, r)"
      by simp
    from M [OF p] have l: "length r < length r4"
      and f: "\<And>m. 2 * (length r4 - length r) \<le> m \<Longrightarrow>
          parse_members h m (define_prop k x acc) r4 = Some (v, r)"
      by simp_all
    have "parse_members h m acc cs = Some (v, r)" if "2 * (length cs - length r) \<le> m" for m
    proof -
      from l l2 l3 l4 have lt: "length r < length cs" by simp
      from fuel_Suc [OF that lt] obtain m' where m': "m = Suc m'" "2 * (length cs - length r) - 1 \<le> m'"
        by auto
      with l l2 l3 l4 have "2 * (length r2 - length r3) \<le> m'" "2 * (length r4 - length r) \<le> m'"
        by simp_all
      from u [OF f1 [OF this(1)], of acc] f [OF this(2)] m' more show ?thesis by simp
    qed
    with l l2 l3 l4 show ?thesis by simp
  next
    case last
    with a u [OF x, of acc] have r: "v = JObject (define_prop k x acc)" "r = r4" by simp_all
    have "parse_members h m acc cs = Some (v, r)" if "2 * (length cs - length r) \<le> m" for m
    proof -
      from r l2 l3 l4 have lt: "length r < length cs" by simp
      from fuel_Suc [OF that lt] obtain m' where m': "m = Suc m'" "2 * (length cs - length r) - 1 \<le> m'"
        by auto
      with r l2 l3 l4 have "2 * (length r2 - length r3) \<le> m'" by simp
      from u [OF f1 [OF this], of acc] m' last r show ?thesis by simp
    qed
    with r l2 l3 l4 show ?thesis by simp
  next
    case bad
    with a u [OF x, of acc] show ?thesis by simp
  qed
qed

lemma fuel_enough:
  "(\<forall>cs v r. parse_value h n cs = Some (v, r) \<longrightarrow>
      length r < length cs \<and> (\<forall>m \<ge> 2 * (length cs - length r). parse_value h m cs = Some (v, r))) \<and>
   (\<forall>acc cs v r. parse_elements h n acc cs = Some (v, r) \<longrightarrow>
      length r < length cs \<and> (\<forall>m \<ge> 2 * (length cs - length r). parse_elements h m acc cs = Some (v, r))) \<and>
   (\<forall>acc cs v r. parse_members h n acc cs = Some (v, r) \<longrightarrow>
      length r < length cs \<and> (\<forall>m \<ge> 2 * (length cs - length r). parse_members h m acc cs = Some (v, r)))"
proof (induction n)
  case 0
  show ?case by simp
next
  case (Suc n)
  then have V: "\<And>cs v r. parse_value h n cs = Some (v, r) \<Longrightarrow>
        length r < length cs \<and> (\<forall>m \<ge> 2 * (length cs - length r). parse_value h m cs = Some (v, r))"
    and E: "\<And>acc cs v r. parse_elements h n acc cs = Some (v, r) \<Longrightarrow>
        length r < length cs \<and> (\<forall>m \<ge> 2 * (length cs - length r). parse_elements h m acc cs = Some (v, r))"
    and M: "\<And>acc cs v r. parse_members h n acc cs = Some (v, r) \<Longrightarrow>
        length r < length cs \<and> (\<forall>m \<ge> 2 * (length cs - length r). parse_members h m acc cs = Some (v, r))"
    by blast+
  show ?case
  proof (intro conjI allI impI)
  qed (use pv_fuel_step [OF E M] pe_fuel_step [OF V E] pm_fuel_step [OF V M] in blast)+
qed

lemma parse_value_fuel:
  "parse_value h n cs = Some (v, r) \<Longrightarrow> 2 * length cs \<le> m \<Longrightarrow> parse_value h m cs = Some (v, r)"
proof -
  assume a: "parse_value h n cs = Some (v, r)" and m: "2 * length cs \<le> m"
  from fuel_enough [of h n] a
  have "\<forall>m \<ge> 2 * (length cs - length r). parse_value h m cs = Some (v, r)" by blast
  moreover have "2 * (length cs - length r) \<le> m" using m by simp
  ultimately show ?thesis by blast
qed

subsection \<open>What the parser returns\<close>

lemma set_update_subset: "set (AList.update k v al) \<subseteq> insert (k, v) (set al)"
  by (induction al) auto

lemma set_insert_index: "set (insert_index i k v kvs) = insert (k, v) (set kvs)"
  by (induction kvs) (auto split: option.splits)

lemma wf_define_prop:
  assumes "wf_value (JObject acc)" and "wf_value x"
  shows "wf_value (JObject (define_prop k x acc))"
proof (cases "k \<in> set (map fst acc)")
  case True
  then have "map fst (AList.update k x acc) = map fst acc" by (simp add: update_keys)
  moreover have "list_all (\<lambda>kv. wf_value (snd kv)) (AList.update k x acc)"
    using assms set_update_subset [of k x acc] by (auto simp: list_all_iff)
  ultimately show ?thesis using assms True by (simp add: define_prop_def)
next
  case False
  show ?thesis
  proof (cases "array_index k")
    case None
    with False assms key_order_append_other [of "map fst acc" k] show ?thesis
      by (simp add: define_prop_def)
  next
    case (Some i)
    have "list_all (\<lambda>kv. wf_value (snd kv)) (insert_index i k x acc)"
      using assms by (auto simp: list_all_iff set_insert_index)
    with False Some assms distinct_insert_index [of k acc i x]
      key_order_insert_index [of acc k i x] show ?thesis
      by (simp add: define_prop_def)
  qed
qed

lemma parse_scalar_wf: "parse_scalar h cs = Some (v, r) \<Longrightarrow> wf_value v"
  by (cases cs) (auto simp: parse_scalar_def split: if_splits)

lemma parse_wf:
  "(\<forall>cs v r. parse_value h n cs = Some (v, r) \<longrightarrow> wf_value v) \<and>
   (\<forall>acc cs v r. parse_elements h n acc cs = Some (v, r) \<longrightarrow> list_all wf_value acc \<longrightarrow> wf_value v) \<and>
   (\<forall>acc cs v r. parse_members h n acc cs = Some (v, r) \<longrightarrow> wf_value (JObject acc) \<longrightarrow> wf_value v)"
proof (induction n)
  case 0
  show ?case by simp
next
  case (Suc n)
  then have V: "\<And>cs v r. parse_value h n cs = Some (v, r) \<Longrightarrow> wf_value v"
    and E: "\<And>acc cs v r. parse_elements h n acc cs = Some (v, r) \<Longrightarrow> list_all wf_value acc \<Longrightarrow> wf_value v"
    and M: "\<And>acc cs v r. parse_members h n acc cs = Some (v, r) \<Longrightarrow> wf_value (JObject acc) \<Longrightarrow> wf_value v"
    by blast+
  have 1: "wf_value v" if a: "parse_value h (Suc n) cs = Some (v, r)" for cs v r
  proof -
    from a obtain c r0 where sk: "skip_ws cs = c # r0"
      by (cases "skip_ws cs") (simp_all add: pv_Nil)
    from a pv_unfold [OF sk, of h n] show ?thesis
      by (auto split: if_splits dest: parse_scalar_wf E M)
  qed
  have 2: "wf_value v" if a: "parse_elements h (Suc n) acc cs = Some (v, r)"
    and acc: "list_all wf_value acc" for acc cs v r
  proof -
    from pe_inv [OF a] obtain x r1 c r2
      where x: "parse_value h n cs = Some (x, r1)" and sk: "skip_ws r1 = c # r2" by blast
    from V [OF x] acc have "list_all wf_value (acc @ [x])" by simp
    with a pe_unfold [OF x sk, of acc] show ?thesis
      by (auto split: if_splits dest: E)
  qed
  have 3: "wf_value v" if a: "parse_members h (Suc n) acc cs = Some (v, r)"
    and acc: "wf_value (JObject acc)" for acc cs v r
  proof -
    from pm_inv [OF a] obtain r0 k r1 r2 x r3 c r4
      where s0: "skip_ws cs = 0x22 # r0" and k: "parse_string_chars r0 = Some (k, r1)"
        and s1: "skip_ws r1 = 0x3A # r2" and x: "parse_value h n r2 = Some (x, r3)"
        and s3: "skip_ws r3 = c # r4"
      by blast
    from wf_define_prop [OF acc V [OF x], of k]
    have "wf_value (JObject (define_prop k x acc))" .
    with a pm_unfold [OF s0 k s1 x s3, of acc] show ?thesis
      by (auto split: if_splits dest: M)
  qed
  from 1 2 3 show ?case by blast
qed

lemma JSON_parse_wf: "JSON_parse h text = Some v \<Longrightarrow> wf_value v"
proof -
  assume "JSON_parse h text = Some v"
  then obtain r where "parse_value h (2 * length text) text = Some (v, r)"
    by (auto simp: JSON_parse_def split: option.splits if_splits)
  with parse_wf [of h "2 * length text"] show ?thesis by blast
qed

lemma JSON_parse_stringify:
  assumes "wf_value v" and "numbers_ok h v"
  shows "JSON_parse h (JSON_stringify h v) = Some v"
proof -
  from reads_backD [OF reads_back_all [OF assms], of "[]" "[]" "[]"] obtain N
    where "parse_value h N (SerializeJSONProperty h [] v) = Some (v, [])"
    by (auto simp: number_stop_def)
  then have "parse_value h (2 * length (SerializeJSONProperty h [] v)) (SerializeJSONProperty h [] v)
      = Some (v, [])"
    by (rule parse_value_fuel) simp
  then show ?thesis by (simp add: JSON_parse_def JSON_stringify_def skip_ws_def)
qed

subsection \<open>Edits and saved text\<close>

lemma entries_values:
  "get_prop d k = Some c \<Longrightarrow> (k, c) \<in> set (Object_entries d)"
  by (simp add: get_prop_def map_of_SomeD)

lemma wf_entries: "wf_value d \<Longrightarrow> (k, c) \<in> set (Object_entries d) \<Longrightarrow> wf_value c"
  by (cases d) (auto simp: list_all_iff dest: set_zip_rightD)

lemma set_prop_wf:
  assumes "set_prop d k x = Some d'" and "wf_value d" and "wf_value x"
  shows "wf_value d'"
proof (cases d)
  case (JArray xs)
  let ?al = "zip (map ToString_nat [0..<length xs]) xs"
  from assms(1) JArray have d': "d' = JArray (map snd (AList.update k x ?al))"
    by (auto split: if_splits)
  have "set (map snd (AList.update k x ?al)) \<subseteq> insert x (set xs)"
  proof
    fix b assume "b \<in> set (map snd (AList.update k x ?al))"
    then obtain a where "(a, b) \<in> set (AList.update k x ?al)" by auto
    with set_update_subset [of k x ?al] have "(a, b) = (k, x) \<or> (a, b) \<in> set ?al" by blast
    then show "b \<in> insert x (set xs)" by (auto dest: set_zip_rightD)
  qed
  with assms(2,3) JArray d' show ?thesis by (auto simp: list_all_iff)
next
  case (JObject kvs)
  from assms(1) JObject have k: "k \<in> set (map fst kvs)" and d': "d' = JObject (AList.update k x kvs)"
    by (auto split: if_splits)
  from k have "map fst (AList.update k x kvs) = map fst kvs" by (simp add: update_keys)
  moreover have "list_all (\<lambda>kv. wf_value (snd kv)) (AList.update k x kvs)"
    using assms(2,3) JObject set_update_subset [of k x kvs] by (auto simp: list_all_iff)
  ultimately show ?thesis using assms(2) JObject d' by simp
qed (use assms in auto)

lemma assign_path_wf:
  "assign_path p x d = Some d' \<Longrightarrow> wf_value d \<Longrightarrow> wf_value x \<Longrightarrow> wf_value d'"
proof (induction p arbitrary: d d')
  case Nil
  then show ?case by simp
next
  case (Cons k p)
  show ?case
  proof (cases "p = []")
    case True
    with Cons.prems show ?thesis
      by (auto simp: assign_path_Cons intro: set_prop_wf)
  next
    case False
    with Cons.prems obtain c c' where
      c: "get_prop d k = Some c" "assign_path p x c = Some c'" "set_prop d k c' = Some d'"
      by (auto simp: assign_path_Cons split: option.splits)
    from c(1) Cons.prems have "wf_value c"
      by (auto dest!: entries_values intro: wf_entries)
    with Cons.IH [OF c(2)] Cons.prems have "wf_value c'" by simp
    with c(3) Cons.prems show ?thesis
      by (auto intro: set_prop_wf)
  qed
qed

lemma set_prop_texts_ok:
  assumes "set_prop d k x = Some d'" and "texts_ok h d" and "texts_ok h x"
  shows "texts_ok h d'"
proof (cases d)
  case (JArray xs)
  let ?al = "zip (map ToString_nat [0..<length xs]) xs"
  from assms(1) JArray have d': "d' = JArray (map snd (AList.update k x ?al))"
    by (auto split: if_splits)
  have "set (map snd (AList.update k x ?al)) \<subseteq> insert x (set xs)"
  proof
    fix b assume "b \<in> set (map snd (AList.update k x ?al))"
    then obtain a where "(a, b) \<in> set (AList.update k x ?al)" by auto
    with set_update_subset [of k x ?al] have "(a, b) = (k, x) \<or> (a, b) \<in> set ?al" by blast
    then show "b \<in> insert x (set xs)" by (auto dest: set_zip_rightD)
  qed
  with assms(2,3) JArray d' show ?thesis by (auto simp: list_all_iff)
next
  case (JObject kvs)
  from assms(1) JObject have d': "d' = JObject (AList.update k x kvs)"
    by (auto split: if_splits)
  have "list_all (\<lambda>kv. texts_ok h (snd kv)) (AList.update k x kvs)"
    using assms(2,3) JObject set_update_subset [of k x kvs] by (auto simp: list_all_iff)
  then show ?thesis using d' by simp
qed (use assms in auto)

lemma texts_ok_entries: "texts_ok h d \<Longrightarrow> (k, c) \<in> set (Object_entries d) \<Longrightarrow> texts_ok h c"
  by (cases d) (auto simp: list_all_iff dest: set_zip_rightD)

lemma assign_path_texts_ok:
  "assign_path p x d = Some d' \<Longrightarrow> texts_ok h d \<Longrightarrow> texts_ok h x \<Longrightarrow> texts_ok h d'"
proof (induction p arbitrary: d d')
  case Nil
  then show ?case by simp
next
  case (Cons k p)
  show ?case
  proof (cases "p = []")
    case True
    with Cons.prems show ?thesis
      by (auto simp: assign_path_Cons intro: set_prop_texts_ok)
  next
    case False
    with Cons.prems obtain c c' where
      c: "get_prop d k = Some c" "assign_path p x c = Some c'" "set_prop d k c' = Some d'"
      by (auto simp: assign_path_Cons split: option.splits)
    from c(1) Cons.prems have "texts_ok h c"
      by (auto dest!: entries_values intro: texts_ok_entries)
    with Cons.IH [OF c(2)] Cons.prems have "texts_ok h c'" by simp
    with c(3) Cons.prems show ?thesis
      by (auto intro: set_prop_texts_ok)
  qed
qed

lemma ser_reloaded:
  "texts_ok h v \<Longrightarrow> SerializeJSONProperty h ind (reloaded h v) = SerializeJSONProperty h ind v"
proof (induction h ind v rule: SerializeJSONProperty.induct)
  case (3 h ind n)
  then show ?case by (auto simp: text_ok_def num_ok_def)
next
  case (5 h ind xs)
  then have "SerializeJSONProperty h (ind @ str ''  '') (reloaded h x)
      = SerializeJSONProperty h (ind @ str ''  '') x" if "x \<in> set xs" for x
    using that by (cases "xs = []") (auto simp: list_all_iff)
  then have "map (SerializeJSONProperty h (ind @ str ''  '') \<circ> reloaded h) xs
      = map (SerializeJSONProperty h (ind @ str ''  '')) xs"
    by simp
  then show ?case by (simp cong: map_cong)
next
  case (6 h ind kvs)
  then have "SerializeJSONProperty h (ind @ str ''  '') (reloaded h (snd kv))
      = SerializeJSONProperty h (ind @ str ''  '') (snd kv)" if "kv \<in> set kvs" for kv
    using that by (cases "kvs = []") (auto simp: list_all_iff)
  then have "map (\<lambda>kv. QuoteJSONString (fst kv) @ str '': ''
                 @ SerializeJSONProperty h (ind @ str ''  '') (reloaded h (snd kv))) kvs
      = map (\<lambda>kv. QuoteJSONString (fst kv) @ str '': ''
                 @ SerializeJSONProperty h (ind @ str ''  '') (snd kv)) kvs"
    by simp
  then show ?case by (simp add: comp_def cong: map_cong)
qed simp_all

lemma numbers_ok_reloaded: "texts_ok h v \<Longrightarrow> numbers_ok h (reloaded h v)"
  by (induction h v rule: reloaded.induct) (auto simp: text_ok_def list_all_iff)

lemma wf_reloaded: "wf_value v \<Longrightarrow> wf_value (reloaded h v)"
  by (induction h v rule: reloaded.induct) (auto simp: list_all_iff comp_def)

lemma reloaded_same: "numbers_ok h v \<Longrightarrow> reloaded h v = v"
  by (induction h v rule: reloaded.induct) (auto simp: num_ok_def list_all_iff intro: map_idI)

lemma numbers_ok_texts_ok: "numbers_ok h v \<Longrightarrow> texts_ok h v"
  by (induction h v rule: reloaded.induct) (auto simp: text_ok_def num_ok_def list_all_iff)

lemma JSON_parse_stringify_reloaded:
  assumes "wf_value v" and "texts_ok h v"
  shows "JSON_parse h (JSON_stringify h v) = Some (reloaded h v)"
proof -
  have "JSON_stringify h v = JSON_stringify h (reloaded h v)"
    using ser_reloaded [OF assms(2), of "[]"] by (simp add: JSON_stringify_def)
  moreover have "JSON_parse h (JSON_stringify h (reloaded h v)) = Some (reloaded h v)"
    using assms by (intro JSON_parse_stringify wf_reloaded numbers_ok_reloaded)
  ultimately show ?thesis by simp
qed

lemma Object_keys_reloaded: "Object_keys (reloaded h v) = Object_keys v"
  by (cases v) (simp_all add: comp_def)

lemma get_prop_reloaded: "get_prop (reloaded h d) k = map_option (reloaded h) (get_prop d k)"
proof (cases d)
  case (JArray xs)
  have "zip (map ToString_nat [0..<length xs]) (map (reloaded h) xs)
      = map (\<lambda>kv. (fst kv, reloaded h (snd kv))) (zip (map ToString_nat [0..<length xs]) xs)"
    by (simp add: zip_map2 case_prod_beta)
  moreover have "map_of (map (\<lambda>kv. (fst kv, f (snd kv))) al) k = map_option f (map_of al k)"
    for f :: "'a jsvalue \<Rightarrow> 'a jsvalue" and al
    by (induction al) auto
  ultimately show ?thesis using JArray by (simp add: get_prop_def)
next
  case (JObject kvs)
  have "map_of (map (\<lambda>kv. (fst kv, f (snd kv))) al) k = map_option f (map_of al k)"
    for f :: "'a jsvalue \<Rightarrow> 'a jsvalue" and al
    by (induction al) auto
  with JObject show ?thesis by (simp add: get_prop_def)
qed (simp_all add: get_prop_def)

lemma get_path_reloaded: "get_path q (reloaded h d) = map_option (reloaded h) (get_path q d)"
  by (induction q arbitrary: d) (auto simp: get_prop_reloaded split: option.splits)

lemma keys_at_reloaded:
  "map_option Object_keys (get_path q (reloaded h d)) = map_option Object_keys (get_path q d)"
  by (simp add: get_path_reloaded option.map_comp comp_def Object_keys_reloaded)

lemma load_jsonData:
  "JSON_parse h text = Some d \<Longrightarrow>
   jsonData (fileButton_onclick h (Picked ((name, text) # fs)) v) = d \<and>
   filePath (fileButton_onclick h (Picked ((name, text) # fs)) v) = name"
  by (simp add: displayEditor_def)


section \<open>Properties of the host's numbers\<close>

subsection \<open>Powers and logarithms\<close>

lemma pow_pos: "0 < b \<Longrightarrow> 0 < pow b x"
  by (simp add: pow_def)

lemma pow_real: "0 \<le> x \<Longrightarrow> b \<noteq> 0 \<Longrightarrow> real_of_int (pow b x) = of_int b powi x"
  by (simp add: pow_def power_int_nonneg_exp)

lemma pow_real_neg: "x \<le> 0 \<Longrightarrow> b \<noteq> 0 \<Longrightarrow> real_of_int (pow b (- x)) = 1 / of_int b powi x"
  using pow_real [of "- x" b] by (simp add: power_int_minus field_simps)

lemma bitlen_bounds:
  "0 < n \<Longrightarrow> 1 \<le> bitlen n \<and> 2 ^ nat (bitlen n - 1) \<le> n \<and> n < 2 ^ nat (bitlen n)"
proof (induction n rule: bitlen.induct)
  case (1 n)
  show ?case
  proof (cases "n = 1")
    case True
    have "bitlen 1 = 1" by (simp add: bitlen.simps [of 1] bitlen.simps [of 0])
    with True show ?thesis by simp
  next
    case False
    with 1(2) have pos: "0 < n div 2" by simp
    from 1(1) [OF _ pos] 1(2)
    have ih: "1 \<le> bitlen (n div 2)" "2 ^ nat (bitlen (n div 2) - 1) \<le> n div 2"
      "n div 2 < 2 ^ nat (bitlen (n div 2))" by simp_all
    have b: "bitlen n = 1 + bitlen (n div 2)" using 1(2) by (simp add: bitlen.simps [of n])
    have e: "nat (bitlen n - 1) = Suc (nat (bitlen (n div 2) - 1))"
      "nat (bitlen n) = Suc (nat (bitlen (n div 2)))"
      using b ih(1) by simp_all
    have "2 * 2 ^ nat (bitlen (n div 2) - 1) \<le> n" using ih(2) by linarith
    moreover have "n < 2 * 2 ^ nat (bitlen (n div 2))" using ih(3) by linarith
    ultimately show ?thesis using b ih(1) e by simp
  qed
qed

lemma declen_bounds:
  "0 < n \<Longrightarrow> 1 \<le> declen n \<and> 10 ^ nat (declen n - 1) \<le> n \<and> n < 10 ^ nat (declen n)"
proof (induction n rule: declen.induct)
  case (1 n)
  show ?case
  proof (cases "n < 10")
    case True
    then have "n div 10 = 0" using 1(2) by simp
    then have "declen n = 1" using 1(2) by (simp add: declen.simps [of n] declen.simps [of 0])
    with True 1(2) show ?thesis by simp
  next
    case False
    then have pos: "0 < n div 10" by simp
    from 1(1) [OF _ pos] 1(2)
    have ih: "1 \<le> declen (n div 10)" "10 ^ nat (declen (n div 10) - 1) \<le> n div 10"
      "n div 10 < 10 ^ nat (declen (n div 10))" by simp_all
    have b: "declen n = 1 + declen (n div 10)" using 1(2) by (simp add: declen.simps [of n])
    have e: "nat (declen n - 1) = Suc (nat (declen (n div 10) - 1))"
      "nat (declen n) = Suc (nat (declen (n div 10)))"
      using b ih(1) by simp_all
    have "10 * 10 ^ nat (declen (n div 10) - 1) \<le> n" using ih(2) by linarith
    moreover have "n < 10 * 10 ^ nat (declen (n div 10))" using ih(3) by linarith
    ultimately show ?thesis using b ih(1) e by simp
  qed
qed

lemma bitlen_real:
  assumes "0 < n"
  shows "2 powi (bitlen n - 1) \<le> real_of_int n" and "real_of_int n < 2 powi bitlen n"
proof -
  from bitlen_bounds [OF assms]
  have 1: "1 \<le> bitlen n" and 2: "2 ^ nat (bitlen n - 1) \<le> n" and 3: "n < 2 ^ nat (bitlen n)"
    by simp_all
  from 2 have "real_of_int (2 ^ nat (bitlen n - 1)) \<le> real_of_int n" by (simp only: of_int_le_iff)
  then show "2 powi (bitlen n - 1) \<le> real_of_int n" using 1 by (simp add: power_int_nonneg_exp)
  from 3 have "real_of_int n < real_of_int (2 ^ nat (bitlen n))" by (simp only: of_int_less_iff)
  then show "real_of_int n < 2 powi bitlen n" using 1 by (simp add: power_int_nonneg_exp)
qed

lemma declen_real:
  assumes "0 < n"
  shows "10 powi (declen n - 1) \<le> real_of_int n" and "real_of_int n < 10 powi declen n"
proof -
  from declen_bounds [OF assms]
  have 1: "1 \<le> declen n" and 2: "10 ^ nat (declen n - 1) \<le> n" and 3: "n < 10 ^ nat (declen n)"
    by simp_all
  from 2 have "real_of_int (10 ^ nat (declen n - 1)) \<le> real_of_int n" by (simp only: of_int_le_iff)
  then show "10 powi (declen n - 1) \<le> real_of_int n" using 1 by (simp add: power_int_nonneg_exp)
  from 3 have "real_of_int n < real_of_int (10 ^ nat (declen n))" by (simp only: of_int_less_iff)
  then show "real_of_int n < 10 powi declen n" using 1 by (simp add: power_int_nonneg_exp)
qed

text \<open>Comparing a quotient of integers with a power.\<close>

lemma le_pow_iff:
  assumes "0 < b" and "1 < c"
  shows "(if 0 \<le> t then b * pow c t \<le> a else b \<le> a * pow c (- t))
         \<longleftrightarrow> of_int c powi t \<le> real_of_int a / real_of_int b"
proof (cases "0 \<le> t")
  case True
  have "b * pow c t \<le> a \<longleftrightarrow> real_of_int (b * pow c t) \<le> real_of_int a" by (simp only: of_int_le_iff)
  also have "\<dots> \<longleftrightarrow> real_of_int b * of_int c powi t \<le> real_of_int a"
    using True assms by (simp add: pow_real)
  also have "\<dots> \<longleftrightarrow> of_int c powi t \<le> real_of_int a / real_of_int b"
    using assms by (simp add: field_simps)
  finally show ?thesis using True by simp
next
  case False
  have p: "0 < real_of_int c powi t" using assms by simp
  have "b \<le> a * pow c (- t) \<longleftrightarrow> real_of_int b \<le> real_of_int (a * pow c (- t))"
    by (simp only: of_int_le_iff)
  also have "\<dots> \<longleftrightarrow> real_of_int b \<le> real_of_int a / of_int c powi t"
    using False assms by (simp add: pow_real_neg)
  also have "\<dots> \<longleftrightarrow> of_int c powi t \<le> real_of_int a / real_of_int b"
    using assms p by (simp add: field_simps)
  finally show ?thesis using False by simp
qed

lemma powi_unique:
  fixes r :: real
  assumes "1 < c" and "c powi t \<le> r" "r < c powi (t + 1)" and "c powi u \<le> r" "r < c powi (u + 1)"
  shows "t = u"
proof (rule ccontr)
  assume "t \<noteq> u"
  then consider "t + 1 \<le> u" | "u + 1 \<le> t" by linarith
  then show False
  proof cases
    case 1
    then have "c powi (t + 1) \<le> c powi u" using assms(1) by (intro power_int_increasing) auto
    with assms show False by linarith
  next
    case 2
    then have "c powi (u + 1) \<le> c powi t" using assms(1) by (intro power_int_increasing) auto
    with assms show False by linarith
  qed
qed

lemma quotient_between:
  fixes c :: real
  assumes "1 < c" and "0 < a" and "0 < b"
    and "c powi (la - 1) \<le> a" "a < c powi la" and "c powi (lb - 1) \<le> b" "b < c powi lb"
  shows "c powi (la - lb - 1) < a / b" and "a / b < c powi (la - lb + 1)"
proof -
  have c0: "c \<noteq> 0" "0 < c" using assms(1) by simp_all
  have "c powi (la - lb - 1) = c powi (la - 1) / c powi lb"
    using power_int_diff [of c "la - 1" lb] c0 by (simp add: algebra_simps)
  also have "\<dots> < a / b"
    using assms c0 by (intro frac_less2) simp_all
  finally show "c powi (la - lb - 1) < a / b" .
  have "a / b < c powi la / c powi (lb - 1)"
    using assms c0 by (intro frac_less) simp_all
  also have "\<dots> = c powi (la - lb + 1)"
    using power_int_diff [of c la "lb - 1"] c0 by (simp add: algebra_simps)
  finally show "a / b < c powi (la - lb + 1)" .
qed

lemma floor_log2_bounds:
  assumes "0 < a" and "0 < b"
  shows "2 powi floor_log2 a b \<le> real_of_int a / real_of_int b"
    and "real_of_int a / real_of_int b < 2 powi (floor_log2 a b + 1)"
proof -
  let ?r = "real_of_int a / real_of_int b"
  let ?t = "bitlen a - bitlen b"
  have test: "(if 0 \<le> ?t then b * pow 2 ?t \<le> a else b \<le> a * pow 2 (- ?t)) \<longleftrightarrow> 2 powi ?t \<le> ?r"
    using le_pow_iff [OF assms(2), of 2 ?t a] by simp
  have btw: "2 powi (?t - 1) < ?r" "?r < 2 powi (?t + 1)"
    using quotient_between [of 2 "real_of_int a" "real_of_int b" "bitlen a" "bitlen b"]
      bitlen_real [OF assms(1)] bitlen_real [OF assms(2)] assms by simp_all
  show "2 powi floor_log2 a b \<le> ?r"
    using test btw by (auto simp: floor_log2_def Let_def)
  show "?r < 2 powi (floor_log2 a b + 1)"
    using test btw by (auto simp: floor_log2_def Let_def)
qed

lemma div_real_bounds:
  assumes "0 < b"
  shows "real_of_int (a div b) \<le> real_of_int a / real_of_int b"
    and "real_of_int a / real_of_int b < real_of_int (a div b) + 1"
proof -
  have "real_of_int a = real_of_int (b * (a div b) + a mod b)" by simp
  then have e: "real_of_int a = real_of_int b * real_of_int (a div b) + real_of_int (a mod b)"
    by (simp only: of_int_add of_int_mult)
  have "0 \<le> a mod b" "a mod b < b" using assms by simp_all
  then have m: "0 \<le> real_of_int (a mod b)" "real_of_int (a mod b) < real_of_int b"
    by (simp_all only: of_int_0_le_iff of_int_less_iff)
  have b: "0 < real_of_int b" using assms by simp
  show "real_of_int (a div b) \<le> real_of_int a / real_of_int b"
    using e m b by (simp add: field_simps)
  show "real_of_int a / real_of_int b < real_of_int (a div b) + 1"
    using e m b by (simp add: field_simps)
qed

lemma dec_exponent_bounds:
  assumes "0 < a" and "0 < b"
  shows "10 powi (dec_exponent a b - 1) \<le> real_of_int a / real_of_int b"
    and "real_of_int a / real_of_int b < 10 powi dec_exponent a b"
proof -
  let ?r = "real_of_int a / real_of_int b"
  have "10 powi (dec_exponent a b - 1) \<le> ?r \<and> ?r < 10 powi dec_exponent a b"
  proof (cases "b \<le> a")
    case True
    then have q: "0 < a div b" using assms by (simp add: pos_imp_zdiv_pos_iff)
    have fl: "real_of_int (a div b) \<le> ?r" "?r < real_of_int (a div b) + 1"
      using div_real_bounds [OF assms(2), of a] by simp_all
    from declen_real [OF q] True fl
    have 1: "10 powi (dec_exponent a b - 1) \<le> ?r" by (simp add: dec_exponent_def)
    have "real_of_int (a div b) + 1 \<le> 10 powi declen (a div b)"
    proof -
      from declen_bounds [OF q] have "a div b + 1 \<le> 10 ^ nat (declen (a div b))" "1 \<le> declen (a div b)"
        by simp_all
      then have "real_of_int (a div b + 1) \<le> real_of_int (10 ^ nat (declen (a div b)))"
        by (simp only: of_int_le_iff)
      then show ?thesis using \<open>1 \<le> declen (a div b)\<close> by (simp add: power_int_nonneg_exp)
    qed
    with fl True have "?r < 10 powi dec_exponent a b" by (simp add: dec_exponent_def)
    with 1 show ?thesis by simp
  next
    case False
    let ?j = "declen b - declen a"
    have test: "b \<le> a * pow 10 ?j \<longleftrightarrow> 10 powi (- ?j) \<le> ?r"
    proof -
      have "0 \<le> ?j"
      proof (rule ccontr)
        assume "\<not> 0 \<le> ?j"
        then have "declen b \<le> declen a - 1" by simp
        then have "(10::real) powi declen b \<le> 10 powi (declen a - 1)"
          by (intro power_int_increasing) simp_all
        with declen_real [OF assms(1)] declen_real [OF assms(2)] False show False by simp
      qed
      then show ?thesis
        using le_pow_iff [OF assms(2), of 10 "- ?j" a] by (auto split: if_splits simp: pow_def)
    qed
    have btw: "10 powi (- ?j - 1) < ?r" "?r < 10 powi (- ?j + 1)"
      using quotient_between [of 10 "real_of_int a" "real_of_int b" "declen a" "declen b"]
        declen_real [OF assms(1)] declen_real [OF assms(2)] assms by (simp_all add: algebra_simps)
    show ?thesis
      using False test btw by (auto simp: dec_exponent_def Let_def algebra_simps)
  qed
  then show "10 powi (dec_exponent a b - 1) \<le> ?r" and "?r < 10 powi dec_exponent a b"
    by simp_all
qed


subsection \<open>Rounding to a double\<close>

definition valid_double :: "double \<Rightarrow> bool" where
  "valid_double x \<longleftrightarrow>
     (case x of
        Infinite s \<Rightarrow> True
      | Finite s m e \<Rightarrow>
          0 \<le> m \<and> m < 2 ^ 53 \<and> - 1074 \<le> e \<and> e \<le> 971 \<and> (m < 2 ^ 52 \<longrightarrow> e = - 1074))"

definition mantissa :: "int \<Rightarrow> int \<Rightarrow> int \<Rightarrow> int" where
  "mantissa a b e =
     (if 0 \<le> e then round_half_even a (b * pow 2 e) else round_half_even (a * pow 2 (- e)) b)"

definition binary_exponent :: "int \<Rightarrow> int \<Rightarrow> int" where
  "binary_exponent a b = max (floor_log2 a b - 52) (- 1074)"

lemma to_double_unfold:
  assumes "a \<noteq> 0"
  shows "to_double s a b =
     (if mantissa a b (binary_exponent a b) = 2 ^ 53
      then (if 971 < binary_exponent a b + 1 then Infinite s
            else Finite s (2 ^ 52) (binary_exponent a b + 1))
      else (if 971 < binary_exponent a b then Infinite s
            else Finite s (mantissa a b (binary_exponent a b)) (binary_exponent a b)))"
proof -
  have p: "pow 2 53 = 2 ^ 53" "pow 2 52 = 2 ^ 52" by (simp_all add: pow_def)
  show ?thesis
    using assms by (simp only: to_double_def Let_def mantissa_def binary_exponent_def p if_False)
qed

lemma round_half_even_scale:
  assumes "0 < c"
  shows "round_half_even (n * c) (d * c) = round_half_even n d"
proof -
  have "2 * (n mod d * c) < d * c \<longleftrightarrow> 2 * (n mod d) < d"
    using assms mult_less_cancel_right_pos [of c "2 * (n mod d)" d] by (simp add: mult.assoc)
  moreover have "d * c < 2 * (n mod d * c) \<longleftrightarrow> d < 2 * (n mod d)"
    using assms mult_less_cancel_right_pos [of c d "2 * (n mod d)"] by (simp add: mult.assoc)
  ultimately show ?thesis
    using assms by (simp add: round_half_even_def Let_def mod_mult_mult2)
qed

lemma round_half_even_exact: "0 < d \<Longrightarrow> round_half_even (q * d) d = q"
  by (simp add: round_half_even_def Let_def)

lemma round_half_even_near:
  assumes "0 < d"
  shows "real_of_int (round_half_even n d) \<le> real_of_int n / real_of_int d + 1 / 2"
    and "real_of_int n / real_of_int d - 1 / 2 \<le> real_of_int (round_half_even n d)"
proof -
  have "real_of_int n = real_of_int (d * (n div d) + n mod d)" by simp
  then have e: "real_of_int n = real_of_int d * real_of_int (n div d) + real_of_int (n mod d)"
    by (simp only: of_int_add of_int_mult)
  have "0 \<le> n mod d" "n mod d < d" using assms by simp_all
  then have m: "0 \<le> real_of_int (n mod d)" "real_of_int (n mod d) < real_of_int d"
    by (simp_all only: of_int_0_le_iff of_int_less_iff)
  have d: "0 < real_of_int d" using assms by simp
  have lt: "2 * (n mod d) < d \<longleftrightarrow> 2 * real_of_int (n mod d) < real_of_int d"
    by (metis of_int_less_iff of_int_mult of_int_numeral)
  have gt: "d < 2 * (n mod d) \<longleftrightarrow> real_of_int d < 2 * real_of_int (n mod d)"
    by (metis of_int_less_iff of_int_mult of_int_numeral)
  have q: "real_of_int n / real_of_int d = real_of_int (n div d) + real_of_int (n mod d) / real_of_int d"
    using e d by (simp add: field_simps)
  define r where "r = real_of_int (n mod d) / real_of_int d"
  have r: "0 \<le> r" "r < 1" using m d by (simp_all add: r_def)
  have lt': "2 * (n mod d) < d \<longleftrightarrow> r < 1 / 2" using lt d by (simp add: r_def field_simps)
  have gt': "d < 2 * (n mod d) \<longleftrightarrow> 1 / 2 < r" using gt d by (simp add: r_def field_simps)
  have q': "real_of_int n / real_of_int d = real_of_int (n div d) + r" using q by (simp add: r_def)
  consider "round_half_even n d = n div d" "r \<le> 1 / 2"
    | "round_half_even n d = n div d + 1" "1 / 2 \<le> r"
    using lt' gt' by (cases "even (n div d)") (auto simp: round_half_even_def Let_def)
  then have "real_of_int (round_half_even n d) \<le> real_of_int (n div d) + r + 1 / 2
      \<and> real_of_int (n div d) + r - 1 / 2 \<le> real_of_int (round_half_even n d)"
    using r by cases simp_all
  then show "real_of_int (round_half_even n d) \<le> real_of_int n / real_of_int d + 1 / 2"
    and "real_of_int n / real_of_int d - 1 / 2 \<le> real_of_int (round_half_even n d)"
    unfolding q' by simp_all
qed

lemma round_half_even_ge:
  assumes "0 < d" and "real_of_int k \<le> real_of_int n / real_of_int d"
  shows "k \<le> round_half_even n d"
proof -
  from round_half_even_near(2) [OF assms(1), of n] assms(2)
  have "real_of_int k - 1 < real_of_int (round_half_even n d)" by linarith
  then have "real_of_int (k - 1) < real_of_int (round_half_even n d)" by simp
  then have "k - 1 < round_half_even n d" by (simp only: of_int_less_iff)
  then show ?thesis by simp
qed

lemma round_half_even_le:
  assumes "0 < d" and "real_of_int n / real_of_int d \<le> real_of_int k"
  shows "round_half_even n d \<le> k"
proof -
  from round_half_even_near(1) [OF assms(1), of n] assms(2)
  have "real_of_int (round_half_even n d) < real_of_int k + 1" by linarith
  then have "real_of_int (round_half_even n d) < real_of_int (k + 1)" by simp
  then have "round_half_even n d < k + 1" by (simp only: of_int_less_iff)
  then show ?thesis by simp
qed

text \<open>The mantissa rounds \<open>a / b / 2\<^sup>e\<close>.\<close>

lemma mantissa_ratio:
  assumes "0 < b"
  obtains n d where "mantissa a b e = round_half_even n d" and "0 < d"
    and "real_of_int n / real_of_int d = real_of_int a / real_of_int b / 2 powi e"
proof (cases "0 \<le> e")
  case True
  have "real_of_int a / real_of_int (b * pow 2 e) = real_of_int a / real_of_int b / 2 powi e"
    using True by (simp add: pow_real)
  moreover have "0 < b * pow 2 e" using assms by (simp add: pow_pos)
  ultimately show ?thesis using that [of a "b * pow 2 e"] True by (simp add: mantissa_def)
next
  case False
  have "real_of_int (a * pow 2 (- e)) / real_of_int b = real_of_int a / real_of_int b / 2 powi e"
    using False by (simp add: pow_real_neg)
  then show ?thesis using that [of "a * pow 2 (- e)" b] False assms by (simp add: mantissa_def)
qed

lemma floor_log2_scale:
  assumes "0 < a" and "0 < b" and "0 < c"
  shows "floor_log2 (a * c) (b * c) = floor_log2 a b"
proof -
  have r: "real_of_int (a * c) / real_of_int (b * c) = real_of_int a / real_of_int b"
    using assms by simp
  have ac: "0 < a * c" "0 < b * c" using assms by simp_all
  show ?thesis
    using floor_log2_bounds [OF ac] floor_log2_bounds [OF assms(1,2)]
    unfolding r by (intro powi_unique [of 2 _ "real_of_int a / real_of_int b"]) simp_all
qed

lemma mantissa_scale:
  assumes "0 < c"
  shows "mantissa (a * c) (b * c) e = mantissa a b e"
proof -
  have "round_half_even (a * c) (b * c * pow 2 e) = round_half_even a (b * pow 2 e)"
    using round_half_even_scale [OF assms, of a "b * pow 2 e"] by (simp add: mult.assoc mult.left_commute mult.commute)
  moreover have "round_half_even (a * c * pow 2 (- e)) (b * c) = round_half_even (a * pow 2 (- e)) b"
    using round_half_even_scale [OF assms, of "a * pow 2 (- e)" b] by (simp add: mult.assoc mult.left_commute mult.commute)
  ultimately show ?thesis by (simp add: mantissa_def)
qed

lemma to_double_scale:
  assumes "0 \<le> a" and "0 < b" and "0 < c"
  shows "to_double s (a * c) (b * c) = to_double s a b"
proof (cases "a = 0")
  case True
  then show ?thesis by (simp add: to_double_def)
next
  case False
  with assms have a: "0 < a" by simp
  have ne: "a * c \<noteq> 0" using a assms by simp
  have "binary_exponent (a * c) (b * c) = binary_exponent a b"
    using floor_log2_scale [OF a assms(2,3)] by (simp add: binary_exponent_def)
  then show ?thesis
    using False ne by (simp add: to_double_unfold mantissa_scale [OF assms(3)])
qed

lemma bitlen_le:
  assumes "0 < m" and "m < 2 ^ k"
  shows "bitlen m \<le> int k"
proof -
  from bitlen_bounds [OF assms(1)]
  have b: "1 \<le> bitlen m" "2 ^ nat (bitlen m - 1) \<le> m" by simp_all
  from b(2) assms(2) have "(2::int) ^ nat (bitlen m - 1) < 2 ^ k" by (rule le_less_trans)
  then have "nat (bitlen m - 1) < k" by (rule power_less_imp_less_exp [rotated]) simp
  with b(1) show ?thesis by linarith
qed

lemma bitlen_ge:
  assumes "2 ^ k \<le> m"
  shows "int k < bitlen m"
proof -
  have "(0::int) < 2 ^ k" by simp
  with assms have "0 < m" by linarith
  from bitlen_bounds [OF this]
  have b: "1 \<le> bitlen m" "m < 2 ^ nat (bitlen m)" by simp_all
  from assms b(2) have "(2::int) ^ k < 2 ^ nat (bitlen m)" by (rule le_less_trans)
  then have "k < nat (bitlen m)" by (rule power_less_imp_less_exp [rotated]) simp
  with b(1) show ?thesis by linarith
qed

definition numerator :: "int \<Rightarrow> int \<Rightarrow> int" where
  "numerator m e = (if 0 \<le> e then m * pow 2 e else m)"

definition denominator :: "int \<Rightarrow> int" where
  "denominator e = (if 0 \<le> e then 1 else pow 2 (- e))"

lemma denominator_pos: "0 < denominator e"
  by (simp add: denominator_def pow_pos)

lemma numerator_pos: "0 < m \<Longrightarrow> 0 < numerator m e"
  by (simp add: numerator_def pow_pos)

lemma quotient_value:
  "real_of_int (numerator m e) / real_of_int (denominator e) = real_of_int m * 2 powi e"
  using pow_real [of e 2] pow_real_neg [of e 2]
  by (cases "0 \<le> e") (simp_all add: numerator_def denominator_def)

lemma binary_exponent_exact:
  assumes "valid_double (Finite s0 m e)" and "0 < m"
  shows "binary_exponent (numerator m e) (denominator e) = e"
proof -
  let ?L = "bitlen m"
  let ?r = "real_of_int (numerator m e) / real_of_int (denominator e)"
  have v: "m < 2 ^ 53" "- 1074 \<le> e" "m < 2 ^ 52 \<longrightarrow> e = - 1074"
    using assms(1) by (simp_all add: valid_double_def)
  have p: "(0::real) < 2 powi e" by simp
  have "2 powi (?L - 1) * 2 powi e \<le> real_of_int m * 2 powi e"
    using bitlen_real(1) [OF assms(2)] p by (simp only: mult_le_cancel_right_pos)
  then have lo: "2 powi (?L - 1 + e) \<le> ?r" by (simp add: quotient_value power_int_add)
  have "real_of_int m * 2 powi e < 2 powi ?L * 2 powi e"
    using bitlen_real(2) [OF assms(2)] p by (simp only: mult_less_cancel_right_pos)
  then have hi: "?r < 2 powi (?L - 1 + e + 1)" by (simp add: quotient_value power_int_add)
  have t: "floor_log2 (numerator m e) (denominator e) = ?L - 1 + e"
    using floor_log2_bounds [OF numerator_pos [OF assms(2)] denominator_pos, of e e] lo hi
    by (intro powi_unique [of 2 _ ?r]) simp_all
  have le: "?L \<le> 53" using bitlen_le [OF assms(2) v(1)] by simp
  show ?thesis
  proof (cases "m < 2 ^ 52")
    case True
    with v have "e = - 1074" by simp
    moreover have "?L \<le> 52" using bitlen_le [OF assms(2) True] by simp
    ultimately show ?thesis using t by (simp add: binary_exponent_def)
  next
    case False
    then have "52 < ?L" using bitlen_ge [of 52 m] by simp
    with le have "?L = 53" by simp
    with t v show ?thesis by (simp add: binary_exponent_def)
  qed
qed

lemma mantissa_exact: "mantissa (numerator m e) (denominator e) e = m"
  using round_half_even_exact [of "pow 2 e" m] round_half_even_exact [of "pow 2 (- e)" m]
  by (simp add: mantissa_def numerator_def denominator_def pow_pos)

lemma to_double_exact:
  assumes "valid_double (Finite s0 m e)" and "0 < m"
  shows "to_double s (numerator m e) (denominator e) = Finite s m e"
proof -
  have v: "m < 2 ^ 53" "e \<le> 971" using assms(1) by (simp_all add: valid_double_def)
  have ne: "numerator m e \<noteq> 0" using numerator_pos [OF assms(2), of e] by simp
  show ?thesis
    using v by (simp add: to_double_unfold [OF ne] binary_exponent_exact [OF assms] mantissa_exact)
qed

lemma to_double_valid:
  assumes "0 \<le> a" and "0 < b"
  shows "valid_double (to_double s a b)"
proof (cases "a = 0")
  case True
  then show ?thesis by (simp add: to_double_def valid_double_def)
next
  case False
  with assms have a: "0 < a" by simp
  define r where "r = real_of_int a / real_of_int b"
  let ?t = "floor_log2 a b"
  let ?e = "binary_exponent a b"
  let ?m = "mantissa a b ?e"
  define q :: real where "q = 2 powi ?e"
  obtain n d where nd: "?m = round_half_even n d" "0 < d"
    "real_of_int n / real_of_int d = r / q"
    using mantissa_ratio [OF assms(2), of a ?e] unfolding r_def q_def by blast
  have q: "0 < q" by (simp add: q_def)
  have r: "0 \<le> r" "2 powi ?t \<le> r" "r < 2 powi (?t + 1)"
    using a assms floor_log2_bounds [OF a assms(2)] by (simp_all add: r_def)
  have e: "- 1074 \<le> ?e" "?t - 52 \<le> ?e" by (simp_all add: binary_exponent_def)
  have "r < 2 powi (?t + 1)" by (rule r)
  also have "\<dots> \<le> 2 powi (53 + ?e)" using e by (intro power_int_increasing) simp_all
  also have "\<dots> = 2 ^ 53 * q" by (simp add: power_int_add q_def)
  finally have "r / q < 2 ^ 53" using q by (simp add: pos_divide_less_eq)
  then have "real_of_int n / real_of_int d \<le> real_of_int (2 ^ 53)" using nd(3) by simp
  then have hi: "?m \<le> 2 ^ 53" unfolding nd(1) using nd(2) by (intro round_half_even_le)
  have "0 \<le> r / q" using r q by simp
  then have "real_of_int 0 \<le> real_of_int n / real_of_int d" using nd(3) by simp
  then have lo: "0 \<le> ?m" unfolding nd(1) using nd(2) by (intro round_half_even_ge)
  show ?thesis
  proof (cases "?e = ?t - 52")
    case True
    have "2 ^ 52 * q = 2 powi (52 + ?e)" by (simp add: power_int_add q_def)
    also have "\<dots> = 2 powi ?t" using True by simp
    also have "\<dots> \<le> r" by (rule r)
    finally have "2 ^ 52 \<le> r / q" using q by (simp add: pos_le_divide_eq)
    then have "real_of_int (2 ^ 52) \<le> real_of_int n / real_of_int d" using nd(3) by simp
    then have "2 ^ 52 \<le> ?m" unfolding nd(1) using nd(2) by (intro round_half_even_ge)
    with hi e show ?thesis
      by (simp add: to_double_unfold [OF False] valid_double_def)
  next
    case False
    with e have e': "?e = - 1074" "?t + 1 \<le> 52 + ?e" by (simp_all add: binary_exponent_def)
    have "r < 2 powi (?t + 1)" by (rule r)
    also have "\<dots> \<le> 2 powi (52 + ?e)" using e'(2) by (intro power_int_increasing) simp_all
    also have "\<dots> = 2 ^ 52 * q" by (simp add: power_int_add q_def)
    finally have "r / q < 2 ^ 52" using q by (simp add: pos_divide_less_eq)
    then have "real_of_int n / real_of_int d \<le> real_of_int (2 ^ 52)" using nd(3) by simp
    then have "?m \<le> 2 ^ 52" unfolding nd(1) using nd(2) by (intro round_half_even_le)
    with lo e'(1) show ?thesis
      by (simp add: to_double_unfold [OF \<open>a \<noteq> 0\<close>] valid_double_def)
  qed
qed

fun with_sign :: "bool \<Rightarrow> double \<Rightarrow> double" where
  "with_sign s (Finite s0 m e) = Finite s m e"
| "with_sign s (Infinite s0) = Infinite s"

lemma to_double_sign: "to_double s a b = with_sign s (to_double False a b)"
  by (simp add: to_double_def Let_def)


subsection \<open>The shortest digits\<close>

lemma pow_add: "0 \<le> x \<Longrightarrow> 0 \<le> y \<Longrightarrow> pow b (x + y) = pow b x * pow b y"
  by (simp add: pow_def nat_add_distrib power_add)

lemma pow_Suc: "0 \<le> x \<Longrightarrow> pow b (x + 1) = pow b x * b"
  using pow_add [of x 1 b] by (simp add: pow_def)

lemma pow_0: "pow b 0 = 1"
  by (simp add: pow_def)

lemma pow_10: "pow 10 x = pow 5 x * pow 2 x"
  by (simp add: pow_def flip: power_mult_distrib)

lemma scaled_div_ratio:
  assumes "0 < b" and "scaled_div a b x = (num, den)"
  shows "0 < den"
    and "real_of_int num / real_of_int den = real_of_int a / real_of_int b * 10 powi x"
proof -
  show "0 < den" using assms by (auto simp: scaled_div_def pow_pos split: if_splits)
  show "real_of_int num / real_of_int den = real_of_int a / real_of_int b * 10 powi x"
    using assms pow_real [of x 10] pow_real_neg [of x 10]
    by (auto simp: scaled_div_def split: if_splits)
qed

definition lower_digits :: "int \<Rightarrow> int \<Rightarrow> int \<Rightarrow> int \<Rightarrow> int" where
  "lower_digits a b n k = fst (scaled_div a b (k - n)) div snd (scaled_div a b (k - n))"

lemma round_half_even_cases: "round_half_even n d = n div d \<or> round_half_even n d = n div d + 1"
  by (simp add: round_half_even_def Let_def)

lemma candidate_Some:
  assumes "candidate x a b n k = Some s"
  shows "scale10 False s (n - k) = x" and "s = lower_digits a b n k \<or> s = lower_digits a b n k + 1"
proof -
  obtain num den where sd: "scaled_div a b (k - n) = (num, den)" by (cases "scaled_div a b (k - n)")
  have lo: "lower_digits a b n k = num div den" by (simp add: lower_digits_def sd)
  from assms sd show "scale10 False s (n - k) = x"
    using round_half_even_cases [of num den]
    by (auto simp: candidate_def Let_def split: if_splits)
  from assms sd show "s = lower_digits a b n k \<or> s = lower_digits a b n k + 1"
    using round_half_even_cases [of num den]
    by (auto simp: candidate_def Let_def lo split: if_splits)
qed

lemma candidate_lower:
  assumes "scale10 False (lower_digits a b n k) (n - k) = x"
  shows "candidate x a b n k \<noteq> None"
proof -
  obtain num den where sd: "scaled_div a b (k - n) = (num, den)" by (cases "scaled_div a b (k - n)")
  have lo: "lower_digits a b n k = num div den" by (simp add: lower_digits_def sd)
  from assms show ?thesis by (simp add: candidate_def Let_def sd lo)
qed

lemma exact_digits:
  assumes "valid_double (Finite False m e)" and "0 < m"
  shows "scale10 False (lower_digits (numerator m e) (denominator e) n (n - min e 0)) (n - (n - min e 0))
           = Finite False m e"
proof (cases "0 \<le> e")
  case True
  then have "lower_digits (numerator m e) (denominator e) n (n - min e 0) = numerator m e"
    by (simp add: lower_digits_def scaled_div_def pow_0 denominator_def)
  moreover have "scale10 False (numerator m e) 0 = to_double False (numerator m e) (denominator e)"
    using True by (simp add: scale10_def pow_0 denominator_def)
  ultimately show ?thesis using True to_double_exact [OF assms] by simp
next
  case False
  let ?j = "- e"
  have j: "0 < ?j" using False by simp
  have p2: "0 < pow 2 ?j" "0 < pow 5 ?j" by (simp_all add: pow_pos)
  have "lower_digits (numerator m e) (denominator e) n (n - min e 0)
      = m * pow 10 ?j div pow 2 ?j"
    using False by (simp add: lower_digits_def scaled_div_def numerator_def denominator_def)
  also have "\<dots> = m * pow 5 ?j * pow 2 ?j div pow 2 ?j" by (simp add: pow_10 [of ?j] mult.assoc)
  also have "\<dots> = m * pow 5 ?j" using p2 by simp
  finally have lo: "lower_digits (numerator m e) (denominator e) n (n - min e 0) = m * pow 5 ?j" .
  have "scale10 False (m * pow 5 ?j) e = to_double False (m * pow 5 ?j) (pow 2 ?j * pow 5 ?j)"
    using False by (simp add: scale10_def pow_10 [of ?j] mult.commute)
  also have "\<dots> = to_double False m (pow 2 ?j)"
    using assms(2) p2 by (intro to_double_scale) simp_all
  also have "\<dots> = to_double False (numerator m e) (denominator e)"
    using False by (simp add: numerator_def denominator_def)
  also have "\<dots> = Finite False m e" by (rule to_double_exact [OF assms])
  finally show ?thesis using False lo by simp
qed

lemma shortest_result:
  assumes "valid_double (Finite False m e)" and "0 < m"
    and "shortest (Finite False m e) (numerator m e) (denominator e) n (n - min e 0) k = (d, k')"
    and "k \<le> n - min e 0"
  shows "scale10 False d (n - k') = Finite False m e \<and> k \<le> k' \<and>
         (d = lower_digits (numerator m e) (denominator e) n k' \<or>
          d = lower_digits (numerator m e) (denominator e) n k' + 1)"
  using assms(3,4)
proof (induction "Finite False m e" "numerator m e" "denominator e" n "n - min e 0" k
    rule: shortest.induct)
  case (1 n k)
  show ?case
  proof (cases "candidate (Finite False m e) (numerator m e) (denominator e) n k")
    case (Some s)
    with 1(2) have "d = s" "k' = k" by (simp_all add: shortest.simps [of _ _ _ n _ k])
    with candidate_Some [OF Some] show ?thesis by simp
  next
    case None
    have "k < n - min e 0"
    proof (rule ccontr)
      assume "\<not> k < n - min e 0"
      with 1(3) have "k = n - min e 0" by simp
      with exact_digits [OF assms(1,2), of n] None candidate_lower show False by metis
    qed
    with None 1(2) have "shortest (Finite False m e) (numerator m e) (denominator e) n (n - min e 0) (k + 1) = (d, k')"
      by (simp add: shortest.simps [of _ _ _ n _ k])
    with 1(1) [OF None \<open>k < n - min e 0\<close>] \<open>k < n - min e 0\<close> show ?thesis by simp
  qed
qed

lemma lower_digits_bounds:
  assumes "0 < a" and "0 < b" and "1 \<le> k"
  shows "pow 10 (k - 1) \<le> lower_digits a b (dec_exponent a b) k"
    and "lower_digits a b (dec_exponent a b) k < pow 10 k"
proof -
  let ?n = "dec_exponent a b"
  define r where "r = real_of_int a / real_of_int b"
  obtain num den where sd: "scaled_div a b (k - ?n) = (num, den)"
    by (cases "scaled_div a b (k - ?n)")
  have lo: "lower_digits a b ?n k = num div den" by (simp add: lower_digits_def sd)
  have den: "0 < den" and ratio: "real_of_int num / real_of_int den = r * 10 powi (k - ?n)"
    using scaled_div_ratio [OF assms(2) sd] by (simp_all add: r_def)
  have r: "10 powi (?n - 1) \<le> r" "r < 10 powi ?n"
    using dec_exponent_bounds [OF assms(1,2)] by (simp_all add: r_def)
  have p: "(0::real) < 10 powi (k - ?n)" by simp
  have "10 powi (k - 1) = 10 powi (?n - 1) * (10::real) powi (k - ?n)"
    by (simp flip: power_int_add)
  also have "\<dots> \<le> r * 10 powi (k - ?n)" using r(1) p by (simp only: mult_le_cancel_right_pos)
  finally have 1: "real_of_int (pow 10 (k - 1)) \<le> real_of_int num / real_of_int den"
    using assms(3) by (simp add: ratio pow_real)
  have "r * 10 powi (k - ?n) < 10 powi ?n * 10 powi (k - ?n)"
    using r(2) p by (simp only: mult_less_cancel_right_pos)
  also have "\<dots> = 10 powi k" by (simp flip: power_int_add)
  finally have 2: "real_of_int num / real_of_int den < real_of_int (pow 10 k)"
    using assms(3) by (simp add: ratio pow_real)
  from 1 div_real_bounds(2) [OF den, of num]
  have "real_of_int (pow 10 (k - 1)) < real_of_int (num div den + 1)" by simp
  then have "pow 10 (k - 1) < num div den + 1" by (simp only: of_int_less_iff)
  then show "pow 10 (k - 1) \<le> lower_digits a b ?n k" by (simp add: lo)
  from 2 div_real_bounds(1) [OF den, of num]
  have "real_of_int (num div den) < real_of_int (pow 10 k)" by simp
  then have "num div den < pow 10 k" by (simp only: of_int_less_iff)
  then show "lower_digits a b ?n k < pow 10 k" by (simp add: lo)
qed

lemma scale10_shift:
  assumes "0 \<le> d"
  shows "scale10 s (d * 10) x = scale10 s d (x + 1)"
proof -
  consider "0 \<le> x" | "x = - 1" | "x < - 1" by linarith
  then show ?thesis
  proof cases
    case 1
    then show ?thesis by (simp add: scale10_def pow_Suc mult.assoc mult.commute)
  next
    case 2
    have "to_double s (d * 10) (1 * 10) = to_double s d 1"
      using assms by (intro to_double_scale) simp_all
    with 2 show ?thesis by (simp add: scale10_def pow_def)
  next
    case 3
    then have "pow 10 (- x) = pow 10 (- x - 1) * 10"
      using pow_Suc [of "- x - 1" 10] by simp
    moreover have "to_double s (d * 10) (pow 10 (- x - 1) * 10) = to_double s d (pow 10 (- x - 1))"
      using assms by (intro to_double_scale) (simp_all add: pow_pos)
    ultimately show ?thesis using 3 by (simp add: scale10_def)
  qed
qed


subsection \<open>Digits as text\<close>

lemma is_digit_uint: "is_digit c \<longleftrightarrow> 48 \<le> uint c \<and> uint c \<le> 57"
  by (simp add: is_digit_def word_le_def)

lemma digit_char:
  assumes "0 \<le> i" and "i < 10"
  shows "is_digit (48 + word_of_int i)" and "uint (48 + word_of_int i :: jschar) = 48 + i"
    and "(48 + word_of_int i :: jschar) = 48 \<longleftrightarrow> i = 0"
proof -
  define c :: jschar where "c = word_of_int (48 + i)"
  have c: "48 + word_of_int i = c" by (simp add: c_def)
  have u: "uint c = 48 + i" unfolding c_def using assms by (intro uint_small) simp_all
  show "is_digit (48 + word_of_int i)" unfolding c using assms by (simp add: is_digit_uint u)
  show "uint (48 + word_of_int i :: jschar) = 48 + i" unfolding c by (rule u)
  have "c = 48 \<longleftrightarrow> uint c = uint (48 :: jschar)" by (simp only: word_uint_eq_iff)
  then show "(48 + word_of_int i :: jschar) = 48 \<longleftrightarrow> i = 0" unfolding c by (simp add: u)
qed

lemma int_of_digits_snoc: "int_of_digits (ds @ [c]) = 10 * int_of_digits ds + (uint c - 48)"
  by (simp add: int_of_digits_def)

lemma int_of_digits_Nil: "int_of_digits [] = 0"
  by (simp add: int_of_digits_def)

lemma int_of_digits_append:
  "int_of_digits (xs @ ys) = int_of_digits xs * 10 ^ length ys + int_of_digits ys"
proof (induction ys rule: rev_induct)
  case Nil
  show ?case by (simp add: int_of_digits_Nil)
next
  case (snoc y ys)
  have "int_of_digits (xs @ ys @ [y]) = 10 * int_of_digits (xs @ ys) + (uint y - 48)"
    using int_of_digits_snoc [of "xs @ ys" y] by simp
  with snoc show ?case by (simp add: int_of_digits_snoc algebra_simps)
qed

lemma int_of_digits_zeros: "int_of_digits (replicate j 0x30) = 0"
proof (induction j)
  case 0
  show ?case by (simp add: int_of_digits_Nil)
next
  case (Suc j)
  have "replicate (Suc j) (0x30 :: jschar) = replicate j 0x30 @ [0x30]"
    by (simp add: replicate_append_same)
  with Suc show ?case by (simp only: int_of_digits_snoc) simp
qed

lemma ToString_int_digits:
  "0 \<le> s \<Longrightarrow> list_all is_digit (ToString_int s) \<and> int_of_digits (ToString_int s) = s
     \<and> ToString_int s \<noteq> []"
proof (induction s rule: ToString_int.induct)
  case (1 n)
  show ?case
  proof (cases "n < 10")
    case True
    with 1(2) digit_char [of n] show ?thesis
      by (simp add: ToString_int.simps [of n] int_of_digits_def)
  next
    case False
    with 1 have ih: "list_all is_digit (ToString_int (n div 10))"
      "int_of_digits (ToString_int (n div 10)) = n div 10" by simp_all
    have m: "0 \<le> n mod 10" "n mod 10 < 10" by simp_all
    from False ih digit_char(1,2) [OF m] show ?thesis
      by (simp add: ToString_int.simps [of n] int_of_digits_snoc)
  qed
qed

lemma ToString_int_head:
  "0 < s \<Longrightarrow> \<exists>c r. ToString_int s = c # r \<and> is_digit c \<and> c \<noteq> 0x30 \<and> list_all is_digit r"
proof (induction s rule: ToString_int.induct)
  case (1 n)
  show ?case
  proof (cases "n < 10")
    case True
    with 1(2) digit_char [of n] show ?thesis
      by (simp add: ToString_int.simps [of n])
  next
    case False
    from False have "0 < n div 10" by simp
    from 1(1) [OF False this] obtain c r where ih: "ToString_int (n div 10) = c # r" "is_digit c"
      "c \<noteq> 0x30" "list_all is_digit r" by auto
    have m: "0 \<le> n mod 10" "n mod 10 < 10" by simp_all
    from False ih digit_char(1) [OF m] show ?thesis
      by (simp add: ToString_int.simps [of n])
  qed
qed

lemma ToString_int_length:
  "1 \<le> k \<Longrightarrow> pow 10 (k - 1) \<le> s \<Longrightarrow> s < pow 10 k \<Longrightarrow> length (ToString_int s) = nat k"
proof (induction s arbitrary: k rule: ToString_int.induct)
  case (1 n)
  show ?case
  proof (cases "n < 10")
    case True
    have "k = 1"
    proof (rule ccontr)
      assume "k \<noteq> 1"
      with 1(2) have "0 \<le> k - 2" by simp
      from pow_Suc [OF this, of 10] have "pow 10 (k - 1) = pow 10 (k - 2) * 10"
        by (simp add: algebra_simps)
      moreover have "0 < pow 10 (k - 2)" by (simp add: pow_pos)
      ultimately show False using 1(3) True by linarith
    qed
    with True show ?thesis by (simp add: ToString_int.simps [of n])
  next
    case False
    have k2: "2 \<le> k"
    proof (rule ccontr)
      assume "\<not> 2 \<le> k"
      with 1(2) have "k = 1" by simp
      with 1(4) False show False by (simp add: pow_def)
    qed
    then have "0 \<le> k - 2" "0 \<le> k - 1" by simp_all
    from pow_Suc [OF this(1), of 10] pow_Suc [OF this(2), of 10]
    have p: "pow 10 (k - 1) = pow 10 (k - 2) * 10" "pow 10 k = pow 10 (k - 1) * 10"
      by (simp_all add: algebra_simps)
    have "pow 10 (k - 1 - 1) \<le> n div 10" using 1(3) p(1) by (simp add: algebra_simps)
    moreover have "n div 10 < pow 10 (k - 1)" using 1(4) p(2) by linarith
    ultimately have "length (ToString_int (n div 10)) = nat (k - 1)"
      using 1(1) [OF False, of "k - 1"] k2 by simp
    with False k2 show ?thesis by (simp add: ToString_int.simps [of n])
  qed
qed

lemma digits_stop:
  "list_all is_digit ds \<Longrightarrow> \<not> is_digit x \<Longrightarrow>
   takeWhile is_digit (ds @ x # rest) = ds \<and> dropWhile is_digit (ds @ x # rest) = x # rest"
  by (induction ds) auto

lemma digits_end:
  "list_all is_digit ds \<Longrightarrow> takeWhile is_digit ds = ds \<and> dropWhile is_digit ds = []"
  by (induction ds) auto

lemma digits_span:
  "list_all is_digit ds \<Longrightarrow> rest = [] \<or> \<not> is_digit (hd rest) \<Longrightarrow>
   takeWhile is_digit (ds @ rest) = ds \<and> dropWhile is_digit (ds @ rest) = rest"
  using digits_stop [of ds "hd rest" "tl rest"] digits_end [of ds] by (cases rest) auto

lemma not_digit: "\<not> is_digit 0x2E" "\<not> is_digit 0x65" "\<not> is_digit 0x2B" "\<not> is_digit 0x2D"
  by (simp_all add: is_digit_def)

lemma str_chars: "str ''.'' = [0x2E]" "str ''-'' = [0x2D]" "str ''+'' = [0x2B]" "str ''e'' = [0x65]"
  "str ''0.'' = [0x30, 0x2E]" "str ''0'' = [0x30]"
  by (simp_all add: str_def)

definition fraction_part :: "jsstring \<Rightarrow> jsstring" where
  "fraction_part fp = (if fp = [] then [] else 0x2E # fp)"

definition exponent_part :: "jsstring \<Rightarrow> int \<Rightarrow> bool" where
  "exponent_part expo ex \<longleftrightarrow>
     expo = [] \<and> ex = 0 \<or>
     (\<exists>sg ed. expo = 0x65 # sg # ed \<and> list_all is_digit ed \<and> ed \<noteq> [] \<and>
        (sg = 0x2B \<and> ex = int_of_digits ed \<or> sg = 0x2D \<and> ex = - int_of_digits ed))"

lemma exponent_start: "exponent_part expo ex \<Longrightarrow> expo = [] \<or> hd expo = 0x65"
  by (auto simp: exponent_part_def)

lemma scan_exponent_part:
  "exponent_part expo ex \<Longrightarrow> scan_exponent expo = Some (expo, [])"
  by (auto simp: exponent_part_def scan_exponent_def Let_def digits_end)

lemma scan_fraction_part:
  assumes "list_all is_digit fp" and "exponent_part expo ex"
  shows "scan_fraction (fraction_part fp @ expo) = Some (fraction_part fp, expo)"
proof (cases "fp = []")
  case True
  with exponent_start [OF assms(2)] show ?thesis
    by (cases expo) (auto simp: fraction_part_def scan_fraction_def)
next
  case False
  have "takeWhile is_digit (fp @ expo) = fp \<and> dropWhile is_digit (fp @ expo) = expo"
    using assms(1) exponent_start [OF assms(2)] by (intro digits_span) (auto simp: not_digit)
  with False show ?thesis by (simp add: fraction_part_def scan_fraction_def)
qed

lemma tail_start:
  assumes "exponent_part expo ex"
  shows "fraction_part fp @ expo = [] \<or> \<not> is_digit (hd (fraction_part fp @ expo))"
  using exponent_start [OF assms] by (cases "fp = []") (auto simp: fraction_part_def not_digit)

lemma scan_unsigned_shape:
  assumes "is_digit c" and "list_all is_digit r" and "c = 0x30 \<longrightarrow> r = []"
    and "list_all is_digit fp" and "exponent_part expo ex"
  shows "scan_unsigned (c # r @ fraction_part fp @ expo) = Some (c # r @ fraction_part fp @ expo, [])"
proof -
  let ?tail = "fraction_part fp @ expo"
  have span: "takeWhile is_digit (r @ ?tail) = r \<and> dropWhile is_digit (r @ ?tail) = ?tail"
    using assms(2) tail_start [OF assms(5)] by (intro digits_span)
  have "scan_int (c # r @ ?tail) = Some (c # r, ?tail)"
    using assms(1,3) span by (auto simp: scan_int_def)
  then show ?thesis
    using scan_fraction_part [OF assms(4,5)] scan_exponent_part [OF assms(5)]
    by (simp add: scan_unsigned_def)
qed

lemma StringToNumber_shape:
  assumes "is_digit c" and "list_all is_digit r"
    and "list_all is_digit fp" and "exponent_part expo ex"
  shows "ieee_StringToNumber (c # r @ fraction_part fp @ expo)
           = scale10 False (int_of_digits (c # r @ fp)) (ex - int (length fp))"
proof -
  have c: "c \<noteq> 0x2D" using assms(1) not_digit by auto
  from assms(4) consider
      (none) "expo = []" "ex = 0"
    | (plus) ed where "expo = 0x65 # 0x2B # ed" "list_all is_digit ed" "ex = int_of_digits ed"
    | (minus) ed where "expo = 0x65 # 0x2D # ed" "list_all is_digit ed" "ex = - int_of_digits ed"
    by (auto simp: exponent_part_def)
  then show ?thesis
  proof cases
    case none
    with assms(1,2,3) c show ?thesis
      by (cases "fp = []")
        (simp_all add: ieee_StringToNumber_def Let_def fraction_part_def str_chars digits_stop
          digits_end not_digit int_of_digits_Nil)
  next
    case plus
    with assms(1,2,3) c show ?thesis
      by (cases "fp = []")
        (simp_all add: ieee_StringToNumber_def Let_def fraction_part_def str_chars digits_stop
          digits_end not_digit int_of_digits_Nil)
  next
    case minus
    with assms(1,2,3) c show ?thesis
      by (cases "fp = []")
        (simp_all add: ieee_StringToNumber_def Let_def fraction_part_def str_chars digits_stop
          digits_end not_digit int_of_digits_Nil)
  qed
qed

lemma list_all_take: "list_all P xs \<Longrightarrow> list_all P (take n xs)"
  unfolding list_all_iff using set_take_subset [of n xs] by blast

lemma list_all_drop: "list_all P xs \<Longrightarrow> list_all P (drop n xs)"
  unfolding list_all_iff using set_drop_subset [of n xs] by blast

lemma shapeI:
  assumes "tok = c # r @ fraction_part fp @ expo" and "is_digit c" and "list_all is_digit r"
    and "c = 0x30 \<longrightarrow> r = []" and "list_all is_digit fp" and "exponent_part expo ex"
    and "scale10 False (int_of_digits (c # r @ fp)) (ex - int (length fp)) = v"
  shows "\<exists>c r fp expo ex.
           tok = c # r @ fraction_part fp @ expo \<and>
           is_digit c \<and> list_all is_digit r \<and> (c = 0x30 \<longrightarrow> r = []) \<and>
           list_all is_digit fp \<and> exponent_part expo ex \<and>
           scale10 False (int_of_digits (c # r @ fp)) (ex - int (length fp)) = v"
  using assms by blast

lemma format_digits_shape:
  assumes "1 \<le> k" and "pow 10 (k - 1) \<le> d" and "d < pow 10 k"
  shows "\<exists>c r fp expo ex.
           format_digits d k n = c # r @ fraction_part fp @ expo \<and>
           is_digit c \<and> list_all is_digit r \<and> (c = 0x30 \<longrightarrow> r = []) \<and>
           list_all is_digit fp \<and> exponent_part expo ex \<and>
           scale10 False (int_of_digits (c # r @ fp)) (ex - int (length fp))
             = scale10 False d (n - k)"
proof -
  have d: "0 < d" using assms(2) pow_pos [of 10 "k - 1"] by simp
  obtain c r where ds: "ToString_int d = c # r" "is_digit c" "c \<noteq> 0x30" "list_all is_digit r"
    using ToString_int_head [OF d] by blast
  have len: "length (c # r) = nat k" using ToString_int_length [OF assms] ds(1) by simp
  have val: "int_of_digits (c # r) = d" using ToString_int_digits [of d] d ds(1) by simp
  have none: "exponent_part [] 0" by (simp add: exponent_part_def)
  consider (int) "k \<le> n" "n \<le> 21" | (point) "0 < n" "n \<le> 21" "n < k"
    | (small) "- 6 < n" "n \<le> 0" | (expo) "21 < n \<or> n \<le> - 6"
    by linarith
  then show ?thesis
  proof cases
    case int
    let ?z = "replicate (nat (n - k)) (0x30 :: jschar)"
    have z: "list_all is_digit ?z" by (simp add: list_all_iff is_digit_def)
    have f: "format_digits d k n = c # (r @ ?z) @ fraction_part [] @ []"
      using int ds(1) by (simp add: format_digits_def Let_def fraction_part_def)
    have "int_of_digits (c # (r @ ?z) @ []) = d * 10 ^ nat (n - k)"
      using int_of_digits_append [of "c # r" ?z] by (simp add: val int_of_digits_zeros)
    then have v: "scale10 False (int_of_digits (c # (r @ ?z) @ [])) (0 - int (length ([] :: jsstring)))
        = scale10 False d (n - k)"
      using int by (simp add: scale10_def pow_def)
    have rz: "list_all is_digit (r @ ?z)" using ds(4) z by simp
    have c0: "c = 0x30 \<longrightarrow> r @ ?z = []" using ds(3) by simp
    have e: "list_all is_digit ([] :: jsstring)" by simp
    show ?thesis by (rule shapeI [OF f ds(2) rz c0 e none v])
  next
    case point
    let ?i = "take (nat n - 1) r" and ?f = "drop (nat n) (c # r)"
    have t: "take (nat n) (c # r) = c # ?i" using point by (cases "nat n") simp_all
    have fne: "?f \<noteq> []" using point len by simp
    have "list_all is_digit (c # r)" using ds(2,4) by simp
    then have "list_all is_digit ?f" by (rule list_all_drop)
    moreover have "list_all is_digit ?i" using ds(4) by (rule list_all_take)
    ultimately have digs: "list_all is_digit ?i" "list_all is_digit ?f" by simp_all
    have f: "format_digits d k n = c # ?i @ fraction_part ?f @ []"
      using point ds(1) t fne by (simp add: format_digits_def Let_def fraction_part_def str_chars)
    have "c # ?i @ ?f = c # r" using t append_take_drop_id [of "nat n" "c # r"] by simp
    moreover have "int (length ?f) = k - n" using len point by simp
    ultimately have v: "scale10 False (int_of_digits (c # ?i @ ?f)) (0 - int (length ?f))
        = scale10 False d (n - k)"
      by (simp add: val)
    have c0: "c = 0x30 \<longrightarrow> ?i = []" using ds(3) by simp
    show ?thesis by (rule shapeI [OF f ds(2) digs(1) c0 digs(2) none v])
  next
    case small
    let ?f = "replicate (nat (- n)) (0x30 :: jschar) @ c # r"
    have "list_all is_digit (replicate (nat (- n)) (0x30 :: jschar))"
      by (simp add: list_all_iff is_digit_def)
    then have digs: "list_all is_digit ?f" using ds(2,4) by simp
    have f: "format_digits d k n = 0x30 # [] @ fraction_part ?f @ []"
      using small ds(1) assms(1) by (simp add: format_digits_def Let_def fraction_part_def str_chars)
    have "0x30 # [] @ ?f = replicate (Suc (nat (- n))) (0x30 :: jschar) @ c # r" by simp
    then have "int_of_digits (0x30 # [] @ ?f) = d"
      using int_of_digits_append [of "replicate (Suc (nat (- n))) 0x30" "c # r"]
      by (simp only: int_of_digits_zeros val)
    moreover have "int (length ?f) = k - n" using len small assms(1) by simp
    ultimately have v: "scale10 False (int_of_digits (0x30 # [] @ ?f)) (0 - int (length ?f))
        = scale10 False d (n - k)"
      by simp
    have z: "is_digit 0x30" by (simp add: is_digit_def)
    have e: "list_all is_digit ([] :: jsstring)" "(0x30 :: jschar) = 0x30 \<longrightarrow> ([] :: jsstring) = []"
      by simp_all
    show ?thesis by (rule shapeI [OF f z e digs none v])
  next
    case expo
    let ?E = "ToString_int (abs (n - 1))"
    let ?sg = "if n - 1 < 0 then 0x2D else (0x2B :: jschar)"
    have E: "list_all is_digit ?E" "int_of_digits ?E = abs (n - 1)" "?E \<noteq> []"
      using ToString_int_digits [of "abs (n - 1)"] by simp_all
    have ep: "exponent_part (0x65 # ?sg # ?E) (n - 1)"
      using E by (auto simp: exponent_part_def)
    have m: "(if k = 1 then c # r else take 1 (c # r) @ str ''.'' @ drop 1 (c # r))
        = c # [] @ fraction_part r"
      using len by (cases "k = 1") (auto simp: fraction_part_def str_chars)
    have f: "format_digits d k n = c # [] @ fraction_part r @ 0x65 # ?sg # ?E"
      using expo ds(1) m assms(1) by (auto simp: format_digits_def Let_def str_chars)
    have "int (length r) = k - 1" using len assms(1) by simp
    then have v: "scale10 False (int_of_digits (c # [] @ r)) (n - 1 - int (length r))
        = scale10 False d (n - k)"
      by (simp add: val)
    have e: "list_all is_digit ([] :: jsstring)" "c = 0x30 \<longrightarrow> ([] :: jsstring) = []"
      by simp_all
    show ?thesis by (rule shapeI [OF f ds(2) e ds(4) ep v])
  qed
qed

lemma format_digits_literal:
  assumes "1 \<le> k" and "pow 10 (k - 1) \<le> d" and "d < pow 10 k"
  shows "scan_unsigned (format_digits d k n) = Some (format_digits d k n, [])"
    and "ieee_StringToNumber (format_digits d k n) = scale10 False d (n - k)"
    and "\<exists>c r. format_digits d k n = c # r \<and> is_digit c"
proof -
  from format_digits_shape [OF assms, of n] obtain c r fp expo ex where
    s: "format_digits d k n = c # r @ fraction_part fp @ expo"
      "is_digit c" "list_all is_digit r" "c = 0x30 \<longrightarrow> r = []"
      "list_all is_digit fp" "exponent_part expo ex"
      "scale10 False (int_of_digits (c # r @ fp)) (ex - int (length fp)) = scale10 False d (n - k)"
    by blast
  show "scan_unsigned (format_digits d k n) = Some (format_digits d k n, [])"
    unfolding s(1) using s(2-6) by (rule scan_unsigned_shape)
  show "ieee_StringToNumber (format_digits d k n) = scale10 False d (n - k)"
    unfolding s(1) using StringToNumber_shape [OF s(2,3,5,6)] s(7) by simp
  show "\<exists>c r. format_digits d k n = c # r \<and> is_digit c" using s(1,2) by blast
qed


subsection \<open>A number read from its own text\<close>

lemma scale10_sign: "scale10 s d x = with_sign s (scale10 False d x)"
  using to_double_sign [of s] by (simp add: scale10_def)

lemma StringToNumber_minus:
  assumes "is_digit c"
  shows "ieee_StringToNumber (0x2D # c # r) = with_sign True (ieee_StringToNumber (c # r))"
proof -
  have c: "c \<noteq> 0x2D" using assms not_digit by auto
  show ?thesis
    unfolding ieee_StringToNumber_def Let_def
    using c by (simp add: str_chars scale10_sign [of True])
qed

lemma exact_digits_count:
  assumes "0 < m"
  shows "1 \<le> dec_exponent (numerator m e) (denominator e) - min e 0"
proof -
  let ?n = "dec_exponent (numerator m e) (denominator e)"
  define r where "r = real_of_int (numerator m e) / real_of_int (denominator e)"
  have r: "r = real_of_int m * 2 powi e" by (simp add: r_def quotient_value)
  have up: "r < 10 powi ?n"
    using dec_exponent_bounds(2) [OF numerator_pos [OF assms] denominator_pos, of e e]
    by (simp add: r_def)
  have m1: "1 \<le> real_of_int m" using assms by simp
  show ?thesis
  proof (cases "0 \<le> e")
    case True
    then have "(1::real) \<le> 2 powi e" by (simp add: power_int_nonneg_exp)
    with m1 have "1 * 1 \<le> real_of_int m * 2 powi e" by (intro mult_mono) simp_all
    with up r have "(10::real) powi 0 < 10 powi ?n" by simp
    then have "0 < ?n"
      by (metis less_le_not_le not_le_imp_less one_le_numeral power_int_increasing)
    with True show ?thesis by simp
  next
    case False
    have "(10::real) powi e \<le> 2 powi e"
    proof -
      have "(10::real) powi e = (1 / 10) ^ nat (- e)" "(2::real) powi e = (1 / 2) ^ nat (- e)"
        using False by (simp_all add: power_int_def inverse_eq_divide)
      moreover have "((1 / 10) :: real) ^ nat (- e) \<le> (1 / 2) ^ nat (- e)"
        by (intro power_mono) simp_all
      ultimately show ?thesis by simp
    qed
    also have "\<dots> = 1 * 2 powi e" by simp
    also have "\<dots> \<le> real_of_int m * 2 powi e" using m1 by (intro mult_right_mono) simp_all
    finally have "(10::real) powi e < 10 powi ?n" using up r by simp
    then have "e < ?n"
      by (metis less_le_not_le not_le_imp_less one_le_numeral power_int_increasing)
    with False show ?thesis by simp
  qed
qed

lemma NumberToString_unfold:
  assumes "m \<noteq> 0"
    and "shortest (Finite False m e) (numerator m e) (denominator e)
           (dec_exponent (numerator m e) (denominator e))
           (dec_exponent (numerator m e) (denominator e) - min e 0) 1 = (d, k)"
  shows "ieee_NumberToString (Finite s m e) =
           (if s then str ''-'' else [])
           @ (if d = pow 10 k
              then format_digits (pow 10 (k - 1)) k (dec_exponent (numerator m e) (denominator e) + 1)
              else format_digits d k (dec_exponent (numerator m e) (denominator e)))"
  using assms by (simp add: ieee_NumberToString_def Let_def numerator_def denominator_def)

lemma unsigned_text:
  assumes "valid_double (Finite False m e)" and "0 < m"
  shows "\<exists>u c r. (\<forall>s. ieee_NumberToString (Finite s m e) = (if s then str ''-'' else []) @ u) \<and>
           u = c # r \<and> is_digit c \<and>
           scan_unsigned u = Some (u, []) \<and> ieee_StringToNumber u = Finite False m e"
proof -
  let ?a = "numerator m e" and ?b = "denominator e"
  let ?n = "dec_exponent ?a ?b"
  obtain d k where sh: "shortest (Finite False m e) ?a ?b ?n (?n - min e 0) 1 = (d, k)"
    by (cases "shortest (Finite False m e) ?a ?b ?n (?n - min e 0) 1")
  from shortest_result [OF assms sh exact_digits_count [OF assms(2)]]
  have v: "scale10 False d (?n - k) = Finite False m e" and k: "1 \<le> k"
    and d: "d = lower_digits ?a ?b ?n k \<or> d = lower_digits ?a ?b ?n k + 1"
    by simp_all
  from lower_digits_bounds [OF numerator_pos [OF assms(2)] denominator_pos k, of e e]
  have lo: "pow 10 (k - 1) \<le> lower_digits ?a ?b ?n k" "lower_digits ?a ?b ?n k < pow 10 k"
    by simp_all
  have unf: "ieee_NumberToString (Finite s m e) =
           (if s then str ''-'' else [])
           @ (if d = pow 10 k then format_digits (pow 10 (k - 1)) k (?n + 1)
              else format_digits d k ?n)" for s
    using assms(2) sh by (intro NumberToString_unfold) simp_all
  show ?thesis
  proof (cases "d = pow 10 k")
    case True
    have p: "pow 10 k = pow 10 (k - 1) * 10" using pow_Suc [of "k - 1" 10] k by simp
    have b: "pow 10 (k - 1) \<le> pow 10 (k - 1)" "pow 10 (k - 1) < pow 10 k"
      using p pow_pos [of 10 "k - 1"] by simp_all
    have "scale10 False (pow 10 (k - 1)) (?n + 1 - k) = scale10 False (pow 10 (k - 1) * 10) (?n - k)"
      using scale10_shift [of "pow 10 (k - 1)" False "?n - k"] pow_pos [of 10 "k - 1"]
      by (simp add: algebra_simps)
    with v True p have val: "scale10 False (pow 10 (k - 1)) (?n + 1 - k) = Finite False m e" by simp
    from format_digits_literal [OF k b, of "?n + 1"] val unf True
    show ?thesis by auto
  next
    case False
    with d lo have b: "pow 10 (k - 1) \<le> d" "d < pow 10 k" by auto
    from format_digits_literal [OF k b, of ?n] v unf False
    show ?thesis by auto
  qed
qed

lemma ieee_round_trip:
  assumes "valid_double (Finite s m e)" and "m \<noteq> 0 \<or> \<not> s"
  shows "scan_number (ieee_NumberToString (Finite s m e))
           = Some (ieee_NumberToString (Finite s m e), [])"
    and "ieee_StringToNumber (ieee_NumberToString (Finite s m e)) = Finite s m e"
proof -
  have "scan_number (ieee_NumberToString (Finite s m e))
           = Some (ieee_NumberToString (Finite s m e), []) \<and>
        ieee_StringToNumber (ieee_NumberToString (Finite s m e)) = Finite s m e"
  proof (cases "m = 0")
    case True
    with assms have "s = False" "e = - 1074" by (simp_all add: valid_double_def)
    moreover have "scan_number [0x30] = Some ([0x30], [])"
      by (simp add: scan_number_def scan_unsigned_def scan_int_def scan_fraction_def
          scan_exponent_def is_digit_def)
    moreover have "ieee_StringToNumber [0x30] = Finite False 0 (- 1074)"
      by (simp add: ieee_StringToNumber_def Let_def str_chars is_digit_def int_of_digits_def
          scale10_def to_double_def)
    ultimately show ?thesis using True by (simp add: ieee_NumberToString_def str_chars)
  next
    case False
    with assms(1) have m: "0 < m" and v: "valid_double (Finite False m e)"
      by (simp_all add: valid_double_def)
    from unsigned_text [OF v m] obtain u c r where
      t: "\<And>s. ieee_NumberToString (Finite s m e) = (if s then str ''-'' else []) @ u"
      and u: "u = c # r" "is_digit c" "scan_unsigned u = Some (u, [])"
        "ieee_StringToNumber u = Finite False m e"
      by blast
    have c: "c \<noteq> 0x2D" using u(2) not_digit by auto
    show ?thesis
    proof (cases s)
      case True
      have "scan_number (0x2D # u) = Some (0x2D # u, [])" using u(3) by (simp add: scan_number_def)
      moreover have "ieee_StringToNumber (0x2D # u) = Finite True m e"
        using StringToNumber_minus [OF u(2), of r] u(1,4) by simp
      ultimately show ?thesis using True t [of True] by (simp add: str_chars)
    next
      case False
      have "scan_number u = Some (u, [])" using u(1,3) c by (simp add: scan_number_def)
      with False t [of False] u(4) show ?thesis by simp
    qed
  qed
  then show "scan_number (ieee_NumberToString (Finite s m e))
           = Some (ieee_NumberToString (Finite s m e), [])"
    and "ieee_StringToNumber (ieee_NumberToString (Finite s m e)) = Finite s m e"
    by simp_all
qed

lemma negative_zero_text:
  "ieee_NumberToString (Finite True 0 e) = [0x30]"
  "ieee_StringToNumber [0x30] = Finite False 0 (- 1074)"
  "scan_number [0x30] = Some ([0x30], [])"
  by (simp_all add: ieee_NumberToString_def str_chars ieee_StringToNumber_def Let_def is_digit_def
      int_of_digits_def scale10_def to_double_def scan_number_def scan_unsigned_def scan_int_def
      scan_fraction_def scan_exponent_def)

lemma int_of_digits_nonneg: "list_all is_digit ds \<Longrightarrow> 0 \<le> int_of_digits ds"
proof (induction ds rule: rev_induct)
  case Nil
  show ?case by (simp add: int_of_digits_Nil)
next
  case (snoc c ds)
  then have "0 \<le> int_of_digits ds" "48 \<le> uint c" by (simp_all add: is_digit_uint)
  then show ?case by (simp add: int_of_digits_snoc)
qed

lemma takeWhile_digits: "list_all is_digit (takeWhile is_digit xs)"
  by (induction xs) simp_all

lemma scale10_valid: "0 \<le> d \<Longrightarrow> valid_double (scale10 s d x)"
  using to_double_valid [of "d * pow 10 x" 1 s] to_double_valid [of d "pow 10 (- x)" s]
  by (simp add: scale10_def pow_pos pow_def)

lemma StringToNumber_valid: "valid_double (ieee_StringToNumber tok)"
  unfolding ieee_StringToNumber_def Let_def
  by (intro scale10_valid int_of_digits_nonneg) (simp add: takeWhile_digits)


subsection \<open>Numbers of a parsed document\<close>

lemma numbers_define_prop:
  assumes "all_numbers P (JObject acc)" and "all_numbers P x"
  shows "all_numbers P (JObject (define_prop k x acc))"
proof -
  have "set (define_prop k x acc) \<subseteq> insert (k, x) (set acc)"
    using set_update_subset [of k x acc]
    by (auto simp: define_prop_def set_insert_index split: option.splits)
  with assms show ?thesis by (auto simp: list_all_iff)
qed

lemma parse_scalar_numbers:
  "parse_scalar h cs = Some (v, r) \<Longrightarrow> (\<And>tok. P (StringToNumber h tok)) \<Longrightarrow> all_numbers P v"
  by (cases cs) (auto simp: parse_scalar_def split: if_splits option.splits)

lemma parse_numbers:
  assumes P: "\<And>tok. P (StringToNumber h tok)"
  shows "(\<forall>cs v r. parse_value h n cs = Some (v, r) \<longrightarrow> all_numbers P v) \<and>
   (\<forall>acc cs v r. parse_elements h n acc cs = Some (v, r) \<longrightarrow> list_all (all_numbers P) acc
      \<longrightarrow> all_numbers P v) \<and>
   (\<forall>acc cs v r. parse_members h n acc cs = Some (v, r) \<longrightarrow> all_numbers P (JObject acc)
      \<longrightarrow> all_numbers P v)"
proof (induction n)
  case 0
  show ?case by simp
next
  case (Suc n)
  then have V: "\<And>cs v r. parse_value h n cs = Some (v, r) \<Longrightarrow> all_numbers P v"
    and E: "\<And>acc cs v r. parse_elements h n acc cs = Some (v, r) \<Longrightarrow>
        list_all (all_numbers P) acc \<Longrightarrow> all_numbers P v"
    and M: "\<And>acc cs v r. parse_members h n acc cs = Some (v, r) \<Longrightarrow>
        all_numbers P (JObject acc) \<Longrightarrow> all_numbers P v"
    by blast+
  have 1: "all_numbers P v" if a: "parse_value h (Suc n) cs = Some (v, r)" for cs v r
  proof -
    from a obtain c r0 where sk: "skip_ws cs = c # r0"
      by (cases "skip_ws cs") (simp_all add: pv_Nil)
    from a pv_unfold [OF sk, of h n] show ?thesis
      by (auto split: if_splits dest: parse_scalar_numbers [where P = P, OF _ P] E M)
  qed
  have 2: "all_numbers P v" if a: "parse_elements h (Suc n) acc cs = Some (v, r)"
    and acc: "list_all (all_numbers P) acc" for acc cs v r
  proof -
    from pe_inv [OF a] obtain x r1 c r2
      where x: "parse_value h n cs = Some (x, r1)" and sk: "skip_ws r1 = c # r2" by blast
    from V [OF x] acc have "list_all (all_numbers P) (acc @ [x])" by simp
    with a pe_unfold [OF x sk, of acc] show ?thesis
      by (auto split: if_splits dest: E)
  qed
  have 3: "all_numbers P v" if a: "parse_members h (Suc n) acc cs = Some (v, r)"
    and acc: "all_numbers P (JObject acc)" for acc cs v r
  proof -
    from pm_inv [OF a] obtain r0 k r1 r2 x r3 c r4
      where s0: "skip_ws cs = 0x22 # r0" and k: "parse_string_chars r0 = Some (k, r1)"
        and s1: "skip_ws r1 = 0x3A # r2" and x: "parse_value h n r2 = Some (x, r3)"
        and s3: "skip_ws r3 = c # r4"
      by blast
    from numbers_define_prop [OF acc V [OF x], of k]
    have "all_numbers P (JObject (define_prop k x acc))" .
    with a pm_unfold [OF s0 k s1 x s3, of acc] show ?thesis
      by (auto split: if_splits dest: M)
  qed
  from 1 2 3 show ?case by blast
qed

lemma JSON_parse_numbers:
  assumes "JSON_parse h text = Some v" and "\<And>tok. P (StringToNumber h tok)"
  shows "all_numbers P v"
proof -
  from assms(1) obtain r where "parse_value h (2 * length text) text = Some (v, r)"
    by (auto simp: JSON_parse_def split: option.splits if_splits)
  with parse_numbers [of P h "2 * length text", OF assms(2)] show ?thesis by blast
qed

lemma JSON_parse_valid:
  assumes "JSON_parse ieee text = Some v"
  shows "all_numbers valid_double v"
proof -
  have "valid_double (StringToNumber ieee tok)" for tok
    by (simp add: ieee_def StringToNumber_valid)
  with assms show ?thesis by (rule JSON_parse_numbers)
qed

lemma num_ok_ieee:
  assumes "valid_double (Finite s m e)" and "m \<noteq> 0 \<or> \<not> s"
  shows "num_ok ieee (Finite s m e)"
  using ieee_round_trip [OF assms] by (simp add: num_ok_def ieee_def ieee_isFinite_def)

lemma number_after_save:
  assumes "valid_double x"
  shows "text_ok ieee x \<and> reloaded ieee (JNumber x) = after_save (JNumber x)"
proof (cases x)
  case (Infinite s)
  then show ?thesis by (simp add: text_ok_def ieee_def ieee_isFinite_def)
next
  case (Finite s m e)
  show ?thesis
  proof (cases "m = 0 \<and> s")
    case False
    then have "m \<noteq> 0 \<or> \<not> s" by auto
    moreover have "valid_double (Finite s m e)" using assms Finite by simp
    ultimately have "num_ok ieee (Finite s m e)" by (intro num_ok_ieee)
    then have ok: "num_ok ieee x" using Finite by simp
    then have "StringToNumber ieee (NumberToString ieee x) = x" by (simp add: num_ok_def)
    with ok False Finite show ?thesis
      by (auto simp: text_ok_def ieee_def ieee_isFinite_def)
  next
    case True
    with assms Finite have e: "e = - 1074" by (simp add: valid_double_def)
    have z: "valid_double (Finite False 0 (- 1074))" by (simp add: valid_double_def)
    have "num_ok ieee (Finite False 0 (- 1074))" using z by (rule num_ok_ieee) simp
    moreover have "NumberToString ieee (Finite False 0 (- 1074)) = [0x30]"
      by (simp add: ieee_def ieee_NumberToString_def str_chars)
    ultimately show ?thesis using True Finite e negative_zero_text(1) [of e] negative_zero_text(2,3)
      by (simp add: text_ok_def ieee_def ieee_isFinite_def)
  qed
qed

lemma reloaded_after_save:
  "all_numbers valid_double v \<Longrightarrow> texts_ok ieee v \<and> reloaded ieee v = after_save v"
proof (induction v rule: after_save.induct)
  case (1 s)
  then show ?case using number_after_save [of "Infinite s"] by simp
next
  case (2 s m e)
  then show ?case using number_after_save [of "Finite s m e"] by simp
next
  case (3 xs)
  then show ?case by (auto simp: list_all_iff)
next
  case (4 kvs)
  then show ?case by (auto simp: list_all_iff)
qed simp_all


section \<open>Traversal\<close>

lemma length_concat_singletons:
  "(\<And>x. x \<in> set xs \<Longrightarrow> length (f x) = 1) \<Longrightarrow> length (concat (map f xs)) = length xs"
  by (induction xs) auto

lemma length_createFields: "length (createFields h p data) = length (Object_keys data)"
proof -
  have "length (createFields h p data) = length (sort (Object_keys data))"
    unfolding createFields.simps [of h p data]
    by (rule length_concat_singletons) (simp split: option.splits)
  then show ?thesis by simp
qed










section \<open>Display order\<close>

text \<open>
  C2, as amended.  The children of an Array node are displayed in the lexicographic order
  of their stringified indices, by code unit; for an array of at most ten elements this
  is the numeric index order.
\<close>

theorem array_display_order:
  assumes "get_path q d = Some (JArray xs)"
  shows "\<exists>els. children_at q (createFields h [] d) = Some els \<and>
           map label els = sort (map ToString_nat [0..<length xs]) \<and>
           (length xs \<le> 10 \<longrightarrow> map label els = map ToString_nat [0..<length xs])"
proof -
  have "children_at q (createFields h [] d) = Some (createFields h ([] @ q) (JArray xs))"
    using assms by (intro children_at_createFields) simp_all
  moreover have "map label (createFields h ([] @ q) (JArray xs)) = sort (map ToString_nat [0..<length xs])"
    by (simp add: labels_createFields)
  ultimately show ?thesis by (simp add: sort_digit_keys)
qed

text \<open>The theorem at the array \<open>list\<close> of \<open>scenario_B\<close>: its children show as 0, 1, 2.\<close>

theorem array_display_order_witness:
  "\<exists>els. children_at [str ''list''] (createFields ieee [] scenario_B) = Some els \<and>
     map label els = [str ''0'', str ''1'', str ''2'']"
proof -
  have 1: "get_path [str ''list''] scenario_B =
      Some (JArray [JNumber (double_of_int 10), JNumber (double_of_int 2), JNumber (double_of_int 33)])"
    by code_simp
  let ?xs = "[JNumber (double_of_int 10), JNumber (double_of_int 2), JNumber (double_of_int 33)]"
  have 2: "map ToString_nat [0..<length ?xs] = [str ''0'', str ''1'', str ''2'']"
    by code_simp
  have 3: "length ?xs \<le> 10" by simp
  from array_display_order [OF 1, of ieee] obtain els
    where c: "children_at [str ''list''] (createFields ieee [] scenario_B) = Some els"
      and "length ?xs \<le> 10 \<longrightarrow> map label els = map ToString_nat [0..<length ?xs]"
    by blast
  with 3 have "map label els = map ToString_nat [0..<length ?xs]" by blast
  then have l: "map label els = [str ''0'', str ''1'', str ''2'']" using 2 by (rule trans)
  show ?thesis by (rule exI [of _ els]) (rule conjI [OF c l])
qed

text \<open>
  C2 as stated fails: an array of eleven elements is displayed in the order
  0, 1, 10, 2, ..., 9.
\<close>

theorem array_order_counterexample:
  "map label (createFields ieee [] eleven) =
     str ''0'' # str ''1'' # str ''10'' # map ToString_nat [2..<10] \<and>
   map label (createFields ieee [] eleven) \<noteq> map ToString_nat [0..<11]"
  by code_simp

text \<open>
  C7, as amended.  The children of an Object node, at any depth of any document, are
  displayed in the lexicographic order of its keys by UTF-16 code unit; \<open>displayEditor\<close>
  leaves \<open>jsonData\<close>, and with it the storage order, as it was; and when no key holds a
  high surrogate, the order by code unit is the order by code point.
\<close>

theorem object_display_order:
  assumes "get_path q d = Some (JObject kvs)"
  shows "(\<exists>els. children_at q (createFields h [] d) = Some els \<and>
            map label els = sort (map fst kvs)) \<and>
         jsonData (displayEditor h v) = jsonData v \<and>
         ((\<forall>k \<in> set (map fst kvs). \<forall>c \<in> set k. \<not> is_high_surrogate c) \<longrightarrow>
            sort (map fst kvs) = sort_key StringToCodePoints (map fst kvs))"
proof -
  have "children_at q (createFields h [] d) = Some (createFields h ([] @ q) (JObject kvs))"
    using assms by (intro children_at_createFields) simp_all
  moreover have "map label (createFields h ([] @ q) (JObject kvs)) = sort (map fst kvs)"
    by (simp add: labels_createFields)
  moreover have "jsonData (displayEditor h v) = jsonData v"
    by (simp add: displayEditor_def)
  ultimately show ?thesis using sort_by_code_points [of "map fst kvs"] by simp
qed

text \<open>The theorem at the root of \<open>scenario_A\<close> and at its object \<open>a\<close>.\<close>

theorem object_display_order_witness:
  "(\<exists>els. children_at [str ''a''] (createFields ieee [] scenario_A) = Some els \<and>
      map label els = sort (map fst [(str ''c'', JBool True :: double jsvalue)])) \<and>
   (\<exists>els. children_at [] (createFields ieee [] scenario_A) = Some els \<and> map label els = [str ''a'', str ''b'']) \<and>
   jsonData (displayEditor ieee (view_of scenario_A)) = jsonData (view_of scenario_A)"
proof -
  have 1: "get_path [str ''a''] scenario_A = Some (JObject [(str ''c'', JBool True)])"
    by code_simp
  have 2: "get_path [] scenario_A = Some (JObject [(str ''b'', JNumber (double_of_int 1)),
              (str ''a'', JObject [(str ''c'', JBool True)])])"
    by (simp add: scenario_A_def)
  have 3: "sort (map fst [(str ''b'', JNumber (double_of_int 1)),
              (str ''a'', JObject [(str ''c'', JBool True)])]) = [str ''a'', str ''b'']"
    by code_simp
  show ?thesis
    using object_display_order [OF 1, of ieee "view_of scenario_A"]
      object_display_order [OF 2, of ieee "view_of scenario_A"] 3
    by simp
qed

text \<open>
  C7 as stated fails: the key U+1F600 is the code units D83D DE00 and is displayed before
  the key U+FF5E, which the order by code point puts first.
\<close>

theorem code_point_order_counterexample:
  "map label (createFields ieee [] astral_doc) = [[0xD83D, 0xDE00], [0xFF5E]] \<and>
   sort_key StringToCodePoints (Object_keys astral_doc) = [[0xFF5E], [0xD83D, 0xDE00]]"
  by code_simp

section \<open>Leaf fields and edits\<close>

text \<open>
  C8, as amended.  The text fields of a rendered document are exactly its leaves, each
  bound to its full path and showing \<^verbatim>\<open>String(value)\<close>: \<^verbatim>\<open>true\<close> or \<^verbatim>\<open>false\<close> for a Bool,
  the number's text for a Number, the text itself for a String, and \<^verbatim>\<open>null\<close> for null.
\<close>

theorem leaf_field_text:
  "((q, t) \<in> set (all_fields (createFields h [] d)) \<longleftrightarrow>
      (\<exists>v. q \<noteq> [] \<and> get_path q d = Some v \<and> is_leaf v \<and> t = js_String h v)) \<and>
   js_String h JNull = str ''null'' \<and>
   js_String h (JBool True) = str ''true'' \<and>
   js_String h (JBool False) = str ''false'' \<and>
   js_String h (JNumber n) = NumberToString h n \<and>
   js_String h (JString s) = s"
  using all_fields_createFields [of q t h "[]" d] by simp

text \<open>The theorem on \<open>leaves_doc\<close>, whose four fields show 42, hello, true and null.\<close>

theorem leaf_field_text_witness:
  "all_fields (createFields ieee [] leaves_doc) =
     [([str ''n''], str ''42''), ([str ''s''], str ''hello''),
      ([str ''t''], str ''true''), ([str ''z''], str ''null'')] \<and>
   (([str ''n''], str ''42'') \<in> set (all_fields (createFields ieee [] leaves_doc)) \<longleftrightarrow>
      (\<exists>v. [str ''n''] \<noteq> [] \<and> get_path [str ''n''] leaves_doc = Some v \<and> is_leaf v \<and>
           str ''42'' = js_String ieee v))"
proof -
  have "all_fields (createFields ieee [] leaves_doc) =
     [([str ''n''], str ''42''), ([str ''s''], str ''hello''),
      ([str ''t''], str ''true''), ([str ''z''], str ''null'')]"
    by code_simp
  then show ?thesis
    using leaf_field_text [of "[str ''n'']" "str ''42''" ieee leaves_doc] by simp
qed

text \<open>C8 as stated fails: the field of a null leaf shows \<^verbatim>\<open>null\<close>, not the empty string.\<close>

theorem null_text_counterexample:
  "all_fields (createFields ieee [] (JObject [(str ''z'', JNull)])) = [([str ''z''], str ''null'')] \<and>
   str ''null'' \<noteq> ([] :: jsstring)"
  by code_simp

text \<open>
  C1, as amended.  Committing text to a leaf stores that text as a String at the leaf's
  path, whatever the leaf held (a Number, a Bool, a String or null) and whatever the text
  is; no notice is emitted and nothing else in the view changes.  The commit is never
  rejected.
\<close>

theorem commit_stores_text:
  assumes "p \<noteq> []" and "get_path p (jsonData v) = Some old" and "is_leaf old"
  shows "\<exists>v'. onChange p newValue v = Some v' \<and>
           get_path p (jsonData v') = Some (JString newValue) \<and>
           notices v' = notices v \<and> contentEl v' = contentEl v \<and> filePath v' = filePath v"
proof -
  from assign_path_succeeds [OF assms(1,2)] obtain d'
    where d': "assign_path p (JString newValue) (jsonData v) = Some d'" by blast
  then have "get_path p d' = Some (JString newValue)" by (rule get_assign_path_same)
  with d' show ?thesis by (simp add: onChange_def)
qed

text \<open>The theorem at the Number leaf \<open>n\<close> of \<open>leaves_doc\<close>, committing \<^verbatim>\<open>abc\<close>.\<close>

theorem commit_stores_text_witness:
  "\<exists>v'. onChange [str ''n''] (str ''abc'') (view_of leaves_doc) = Some v' \<and>
     get_path [str ''n''] (jsonData v') = Some (JString (str ''abc'')) \<and>
     notices v' = notices (view_of leaves_doc) \<and>
     contentEl v' = contentEl (view_of leaves_doc) \<and>
     filePath v' = filePath (view_of leaves_doc)"
proof -
  have 1: "[str ''n''] \<noteq> []" by simp
  have 2: "get_path [str ''n''] (jsonData (view_of leaves_doc)) = Some (JNumber (double_of_int 42))"
    by code_simp
  have 3: "is_leaf (JNumber (double_of_int 42))" by simp
  show ?thesis by (rule commit_stores_text [OF 1 2 3])
qed

text \<open>
  C1 as stated fails: the leaf \<open>n\<close> holds the number 42; committing the text \<^verbatim>\<open>42\<close>
  leaves a string there, not a number, and committing \<^verbatim>\<open>abc\<close> adds no notice.
\<close>

theorem commit_number_counterexample:
  "map_option typeof (get_path [str ''n''] (jsonData (view_of leaves_doc))) = Some ''number'' \<and>
   map_option (\<lambda>v. map_option typeof (get_path [str ''n''] (jsonData v)))
     (onChange [str ''n''] (str ''42'') (view_of leaves_doc)) = Some (Some ''string'') \<and>
   map_option notices (onChange [str ''n''] (str ''abc'') (view_of leaves_doc))
     = Some (notices (view_of leaves_doc))"
  by code_simp

text \<open>
  C6, as amended.  Committing the text a leaf's field shows stores that text as a String;
  the document is left as it was exactly when the leaf was a String already.
\<close>

theorem recommit_displayed_text:
  assumes "p \<noteq> []" and "get_path p (jsonData v) = Some old" and "is_leaf old"
  shows "\<exists>v'. onChange p (js_String h old) v = Some v' \<and>
           get_path p (jsonData v') = Some (JString (js_String h old)) \<and>
           (v' = v \<longleftrightarrow> (\<exists>s. old = JString s))"
proof -
  from assign_path_succeeds [OF assms(1,2)] obtain d'
    where d': "assign_path p (JString (js_String h old)) (jsonData v) = Some d'" by blast
  then have g: "get_path p d' = Some (JString (js_String h old))" by (rule get_assign_path_same)
  have "d' = jsonData v \<longleftrightarrow> (\<exists>s. old = JString s)"
  proof
    assume "d' = jsonData v"
    with g assms(2) show "\<exists>s. old = JString s" by auto
  next
    assume "\<exists>s. old = JString s"
    then have "JString (js_String h old) = old" by auto
    with assign_path_same [OF assms(1,2)] d' show "d' = jsonData v" by simp
  qed
  moreover have "v\<lparr>jsonData := d'\<rparr> = v \<longleftrightarrow> d' = jsonData v"
    by (cases v) auto
  ultimately show ?thesis using d' g by (simp add: onChange_def)
qed

text \<open>The theorem at the String leaf \<open>s\<close> of \<open>leaves_doc\<close>.\<close>

theorem recommit_displayed_text_witness:
  "\<exists>v'. onChange [str ''s''] (js_String ieee (JString (str ''hello''))) (view_of leaves_doc) = Some v' \<and>
     get_path [str ''s''] (jsonData v') = Some (JString (js_String ieee (JString (str ''hello'')))) \<and>
     (v' = view_of leaves_doc \<longleftrightarrow> (\<exists>s. JString (str ''hello'') = (JString s :: double jsvalue)))"
proof -
  have 1: "[str ''s''] \<noteq> []" by simp
  have 2: "get_path [str ''s''] (jsonData (view_of leaves_doc)) = Some (JString (str ''hello''))"
    by code_simp
  have 3: "is_leaf (JString (str ''hello'') :: double jsvalue)" by simp
  show ?thesis by (rule recommit_displayed_text [OF 1 2 3])
qed

text \<open>
  C6 as stated fails: the field of the Bool leaf \<open>t\<close> shows \<^verbatim>\<open>true\<close>; committing that
  text replaces the Bool by the String \<^verbatim>\<open>true\<close>.
\<close>

theorem recommit_bool_counterexample:
  "all_fields (contentEl (view_of leaves_doc)) ! 2 = ([str ''t''], str ''true'') \<and>
   get_path [str ''t''] (jsonData (view_of leaves_doc)) = Some (JBool True) \<and>
   map_option (\<lambda>v. get_path [str ''t''] (jsonData v))
     (onChange [str ''t''] (str ''true'') (view_of leaves_doc)) = Some (Some (JString (str ''true''))) \<and>
   onChange [str ''t''] (str ''true'') (view_of leaves_doc) \<noteq> Some (view_of leaves_doc)"
  by code_simp

text \<open>
  C5.  Committing text to a leaf leaves the keys of every object and the indices of every
  array of the document as they were stored, in the same order, and leaves every value
  off the path to the leaf where it was.  The text the save button then writes is read
  back by \<^verbatim>\<open>JSON.parse\<close> as a document with the keys of every object in the order they had
  before the edit.  The edited document is again well formed, so the same holds for the
  next edit.
\<close>

theorem edit_preserves_order:
  assumes "p \<noteq> []" and "get_path p (jsonData v) = Some old" and "is_leaf old"
    and "wf_value (jsonData v)" and "texts_ok h (jsonData v)"
  shows "\<exists>v' out d''. onChange p newValue v = Some v' \<and>
           (\<forall>q c. get_path q (jsonData v) = Some c \<longrightarrow> \<not> is_leaf c \<longrightarrow>
                  map_option Object_keys (get_path q (jsonData v')) = Some (Object_keys c)) \<and>
           (\<forall>q c. get_path q (jsonData v) = Some c \<longrightarrow> \<not> prefix q p \<longrightarrow>
                  get_path q (jsonData v') = Some c) \<and>
           wf_value (jsonData v') \<and> texts_ok h (jsonData v') \<and>
           snd (saveButton_onclick h Saved v') = Some (filePath v, out) \<and>
           JSON_parse h out = Some d'' \<and>
           (\<forall>q c. get_path q (jsonData v) = Some c \<longrightarrow> \<not> is_leaf c \<longrightarrow>
                  map_option Object_keys (get_path q d'') = Some (Object_keys c))"
proof -
  let ?d = "jsonData v"
  from assign_path_succeeds [OF assms(1,2)] obtain d'
    where d': "assign_path p (JString newValue) ?d = Some d'" by blast
  have leaf: "is_leaf (JString newValue :: 'a jsvalue)" by simp
  have keys: "map_option Object_keys (get_path q d') = map_option Object_keys (get_path q ?d)" for q
    using d' assms(2,3) leaf by (rule assign_path_keys)
  have frame: "get_path q d' = get_path q ?d" if "\<not> prefix q p" for q
    using d' assms(2,3) leaf that by (rule assign_path_frame)
  have wf: "wf_value d'"
    using d' assms(4) by (rule assign_path_wf) simp
  have ok: "texts_ok h d'"
    using d' assms(5) by (rule assign_path_texts_ok) simp
  have rd: "JSON_parse h (JSON_stringify h d') = Some (reloaded h d')"
    using wf ok by (rule JSON_parse_stringify_reloaded)
  have keys': "map_option Object_keys (get_path q (reloaded h d'))
      = map_option Object_keys (get_path q ?d)" for q
    by (simp add: keys_at_reloaded keys)
  let ?v' = "v\<lparr>jsonData := d'\<rparr>"
  have 1: "onChange p newValue v = Some ?v'" using d' by (simp add: onChange_def)
  have 2: "\<forall>q c. get_path q ?d = Some c \<longrightarrow> \<not> is_leaf c \<longrightarrow>
      map_option Object_keys (get_path q (jsonData ?v')) = Some (Object_keys c)"
    using keys by simp
  have 3: "\<forall>q c. get_path q ?d = Some c \<longrightarrow> \<not> prefix q p \<longrightarrow>
      get_path q (jsonData ?v') = Some c"
    using frame by simp
  have 4: "wf_value (jsonData ?v') \<and> texts_ok h (jsonData ?v')" using wf ok by simp
  have 5: "snd (saveButton_onclick h Saved ?v') = Some (filePath v, JSON_stringify h d')"
    by simp
  have 6: "\<forall>q c. get_path q ?d = Some c \<longrightarrow> \<not> is_leaf c \<longrightarrow>
      map_option Object_keys (get_path q (reloaded h d')) = Some (Object_keys c)"
    using keys' by simp
  from 1 2 3 4 5 rd 6 show ?thesis by blast
qed

text \<open>
  The theorem on the document of \<open>scenario_A\<close>, committing \<^verbatim>\<open>x\<close> to the leaf \<open>b\<close>: the
  keys stay in the stored order \<open>b\<close>, \<open>a\<close> in the document and in the saved text.
\<close>

theorem edit_preserves_order_witness:
  "\<exists>v' out d''. onChange [str ''b''] (str ''x'') (view_of scenario_A) = Some v' \<and>
     map_option Object_keys (get_path [] (jsonData v')) = Some [str ''b'', str ''a''] \<and>
     get_path [str ''a''] (jsonData v') = Some (JObject [(str ''c'', JBool True)]) \<and>
     wf_value (jsonData v') \<and> texts_ok ieee (jsonData v') \<and>
     snd (saveButton_onclick ieee Saved v') = Some (filePath (view_of scenario_A), out) \<and>
     JSON_parse ieee out = Some d'' \<and>
     map_option Object_keys (get_path [] d'') = Some [str ''b'', str ''a'']"
proof -
  let ?v = "view_of scenario_A"
  have 1: "[str ''b''] \<noteq> []" by simp
  have 2: "get_path [str ''b''] (jsonData ?v) = Some (JNumber (double_of_int 1))" by code_simp
  have 3: "is_leaf (JNumber (double_of_int 1))" by simp
  have 4: "wf_value (jsonData ?v)" by code_simp
  have 5: "texts_ok ieee (jsonData ?v)" by code_simp
  have root: "get_path [] (jsonData ?v) = Some scenario_A" by code_simp
  have node: "\<not> is_leaf scenario_A" by (simp add: scenario_A_def)
  have ks: "Object_keys scenario_A = [str ''b'', str ''a'']" by (simp add: scenario_A_def)
  have a: "get_path [str ''a''] (jsonData ?v) = Some (JObject [(str ''c'', JBool True)])"
    by code_simp
  have np: "\<not> prefix [str ''a''] [str ''b'']" by (simp add: str_def)
  from edit_preserves_order [OF 1 2 3 4 5, of "str ''x''"] obtain v' out d''
    where c: "onChange [str ''b''] (str ''x'') ?v = Some v'"
      and k: "\<forall>q c. get_path q (jsonData ?v) = Some c \<longrightarrow> \<not> is_leaf c \<longrightarrow>
                map_option Object_keys (get_path q (jsonData v')) = Some (Object_keys c)"
      and f: "\<forall>q c. get_path q (jsonData ?v) = Some c \<longrightarrow> \<not> prefix q [str ''b''] \<longrightarrow>
                get_path q (jsonData v') = Some c"
      and w: "wf_value (jsonData v') \<and> texts_ok ieee (jsonData v')"
      and s: "snd (saveButton_onclick ieee Saved v') = Some (filePath ?v, out)"
      and r: "JSON_parse ieee out = Some d''"
      and k': "\<forall>q c. get_path q (jsonData ?v) = Some c \<longrightarrow> \<not> is_leaf c \<longrightarrow>
                map_option Object_keys (get_path q d'') = Some (Object_keys c)"
    by blast
  from k root node ks
  have k1: "map_option Object_keys (get_path [] (jsonData v')) = Some [str ''b'', str ''a'']"
    by metis
  from k' root node ks
  have k2: "map_option Object_keys (get_path [] d'') = Some [str ''b'', str ''a'']"
    by metis
  from f a np have f1: "get_path [str ''a''] (jsonData v') = Some (JObject [(str ''c'', JBool True)])"
    by blast
  from c k1 f1 w s r k2 show ?thesis by blast
qed


section \<open>Loading and saving\<close>

text \<open>
  C4, as amended.  A text that \<^verbatim>\<open>JSON.parse\<close> accepts is loaded and saved with no edit in
  between.  The text written is \<^verbatim>\<open>JSON.stringify\<close> of the parsed document, under the name
  of the file loaded.  Read back, it gives the parsed document with the same keys in the
  same order, the same array elements in the same order and the same values of the same
  types, except that a number that is not finite has become null and negative zero has
  become zero: \<open>after_save\<close> makes these two replacements and no other.
\<close>

theorem load_save_round_trip:
  assumes "JSON_parse ieee text = Some d"
  shows "snd (saveButton_onclick ieee Saved (fileButton_onclick ieee (Picked ((name, text) # fs)) v))
           = Some (name, JSON_stringify ieee d) \<and>
         JSON_parse ieee (JSON_stringify ieee d) = Some (after_save d)"
proof -
  from assms have wf: "wf_value d" by (rule JSON_parse_wf)
  from assms have "all_numbers valid_double d" by (rule JSON_parse_valid)
  then have ok: "texts_ok ieee d" and r: "reloaded ieee d = after_save d"
    using reloaded_after_save by blast+
  have "JSON_parse ieee (JSON_stringify ieee d) = Some (reloaded ieee d)"
    using wf ok by (rule JSON_parse_stringify_reloaded)
  moreover have "snd (saveButton_onclick ieee Saved
        (fileButton_onclick ieee (Picked ((name, text) # fs)) v))
      = Some (name, JSON_stringify ieee d)"
    using load_jsonData [OF assms, of name fs v] by simp
  ultimately show ?thesis using r by simp
qed

text \<open>The theorem on \<open>text_A\<close>, which reads back as \<open>scenario_A\<close>.\<close>

theorem load_save_round_trip_witness:
  "JSON_parse ieee text_A = Some scenario_A \<and>
   snd (saveButton_onclick ieee Saved
          (fileButton_onclick ieee (Picked [(str ''a.json'', text_A)]) (onOpen new_view)))
     = Some (str ''a.json'', JSON_stringify ieee scenario_A) \<and>
   JSON_parse ieee (JSON_stringify ieee scenario_A) = Some scenario_A"
proof -
  have 1: "JSON_parse ieee text_A = Some scenario_A" by code_simp
  have 2: "after_save scenario_A = scenario_A" by code_simp
  from load_save_round_trip [OF 1, of "str ''a.json''" "[]" "onOpen new_view"] 1 2
  show ?thesis by simp
qed

text \<open>
  C4 as stated fails: \<^verbatim>\<open>[1e309]\<close> is valid JSON text and parses to an array holding
  the number \<^verbatim>\<open>Infinity\<close>; it is saved as an array holding \<^verbatim>\<open>null\<close>, which is not a number.
  \<^verbatim>\<open>[-0]\<close> parses to negative zero and is saved as \<^verbatim>\<open>0\<close>.
\<close>

theorem round_trip_counterexample:
  "JSON_parse ieee (str ''[1e309]'') = Some (JArray [JNumber (Infinite False)]) \<and>
   snd (saveButton_onclick ieee Saved
          (fileButton_onclick ieee (Picked [(str ''big.json'', str ''[1e309]'')]) (onOpen new_view)))
     = Some (str ''big.json'', [0x5B, 0x0A, 0x20, 0x20] @ str ''null'' @ [0x0A, 0x5D]) \<and>
   JSON_parse ieee ([0x5B, 0x0A, 0x20, 0x20] @ str ''null'' @ [0x0A, 0x5D]) = Some (JArray [JNull]) \<and>
   typeof (JNumber (Infinite False)) = ''number'' \<and> typeof (JNull :: double jsvalue) = ''object'' \<and>
   JSON_parse ieee (str ''[-0]'') = Some (JArray [JNumber (Finite True 0 (- 1074))]) \<and>
   JSON_parse ieee (JSON_stringify ieee (JArray [JNumber (Finite True 0 (- 1074))]))
     = Some (JArray [JNumber (Finite False 0 (- 1074))])"
  by code_simp

text \<open>
  C10.  When the text parses to a value that is null, a Bool, a Number or a String, the
  value is stored, the view holds the save button and nothing else, so no text field, and
  the notice that there is no valid JSON data to display follows the notice of the
  successful load.
\<close>

theorem primitive_root_display:
  assumes "JSON_parse h text = Some d" and "is_leaf d"
  shows "jsonData (fileButton_onclick h (Picked ((name, text) # fs)) v) = d \<and>
         contentEl (fileButton_onclick h (Picked ((name, text) # fs)) v) = [Button ''Save Changes''] \<and>
         all_fields (contentEl (fileButton_onclick h (Picked ((name, text) # fs)) v)) = [] \<and>
         notices (fileButton_onclick h (Picked ((name, text) # fs)) v)
           = notices v @ [''File loaded successfully!'', ''No valid JSON data to display.'']"
proof -
  from assms(2) have "d = JNull \<or> typeof d \<noteq> ''object''" by (cases d) simp_all
  with assms(1) show ?thesis by (auto simp: displayEditor_def all_fields_def)
qed

text \<open>The theorem on the text \<^verbatim>\<open>42\<close>, loaded into a view just opened.\<close>

theorem primitive_root_display_witness:
  "JSON_parse ieee (str ''42'') = Some (JNumber (double_of_int 42)) \<and>
   is_leaf (JNumber (double_of_int 42)) \<and>
   jsonData (fileButton_onclick ieee (Picked [(str ''n.json'', str ''42'')]) (onOpen new_view))
     = JNumber (double_of_int 42) \<and>
   contentEl (fileButton_onclick ieee (Picked [(str ''n.json'', str ''42'')]) (onOpen new_view))
     = [Button ''Save Changes''] \<and>
   all_fields (contentEl (fileButton_onclick ieee (Picked [(str ''n.json'', str ''42'')]) (onOpen new_view))) = [] \<and>
   notices (fileButton_onclick ieee (Picked [(str ''n.json'', str ''42'')]) (onOpen new_view))
     = [''File loaded successfully!'', ''No valid JSON data to display.'']"
proof -
  have 1: "JSON_parse ieee (str ''42'') = Some (JNumber (double_of_int 42))" by code_simp
  have 2: "is_leaf (JNumber (double_of_int 42))" by simp
  have 3: "notices (onOpen new_view :: double view) = []" by (simp add: onOpen_def new_view_def)
  from primitive_root_display [OF 1 2, of "str ''n.json''" "[]" "onOpen new_view"] 1 2 3
  show ?thesis by (simp add: all_fields_def)
qed

text \<open>
  C3.  The file \<^verbatim>\<open>bad.json\<close> with the text \<^verbatim>\<open>{invalid\<close> is picked in a view just opened.
  \<^verbatim>\<open>JSON.parse\<close> rejects the text, the notice is emitted and \<^verbatim>\<open>jsonData\<close> stays null, but
  \<^verbatim>\<open>filePath\<close>, assigned on line 117 before the text is parsed, has changed from the empty
  string to the name of the rejected file.
\<close>

theorem failed_load_keeps_name:
  "JSON_parse ieee (str ''{invalid'') = None \<and>
   filePath (onOpen new_view :: double view) = [] \<and>
   filePath (fileButton_onclick ieee (Picked [(str ''bad.json'', str ''{invalid'')]) (onOpen new_view))
     = str ''bad.json'' \<and>
   jsonData (fileButton_onclick ieee (Picked [(str ''bad.json'', str ''{invalid'')]) (onOpen new_view))
     = JNull \<and>
   notices (fileButton_onclick ieee (Picked [(str ''bad.json'', str ''{invalid'')]) (onOpen new_view))
     = [''Invalid JSON file.'']"
  by code_simp

end
